theory Spec2Isabelle
  imports Complex_Main
begin

section \<open>GDS2 wafer map converter: the conversion core of wafermap_gui.py\<close>

text \<open>
  The development embeds the five core routines of \<^verbatim>\<open>wafermap_gui.py\<close>:
  \<^verbatim>\<open>parse_gds2\<close>, \<^verbatim>\<open>detect_pitch\<close>, \<^verbatim>\<open>build_grid\<close>, \<^verbatim>\<open>format_output\<close> and the row
  recogniser of \<^verbatim>\<open>_update_from_raw_auto\<close> (the "reparser").

  Modelling conventions.
  \<^item> A Python \<^verbatim>\<open>str\<close> is a \<^typ>\<open>string\<close>; a \<^typ>\<open>char\<close> is one code point in the
    range 0..255, which is exactly what \<^verbatim>\<open>encode('latin-1')\<close> and
    \<^verbatim>\<open>decode('latin-1')\<close> pass through unchanged. Code points above 255 are outside
    the model.
  \<^item> A Python \<^verbatim>\<open>float\<close> is a \<^typ>\<open>real\<close>: arithmetic, \<^verbatim>\<open>math.sqrt\<close> and comparisons
    are the exact ones. Rounding error, infinities and NaN are outside the model.
  \<^item> A Python \<^verbatim>\<open>int\<close> is an \<^typ>\<open>int\<close> (or a \<^typ>\<open>nat\<close> for a length).
  \<^item> An exception is a value: \<^verbatim>\<open>build_grid\<close> returns \<open>Inl ZeroDivisionError\<close> where
    the source divides by a zero die size, and \<^verbatim>\<open>detect_pitch\<close> has a branch for the
    \<^verbatim>\<open>IndexError\<close> of indexing an empty list.
\<close>

subsection \<open>Characters and the string primitives of Python that the code uses\<close>

abbreviation dq :: char where "dq \<equiv> CHR 0x22"
abbreviation CR :: char where "CR \<equiv> CHR 0x0D"
abbreviation LF :: char where "LF \<equiv> CHR 0x0A"

text \<open>\<^verbatim>\<open>str.isspace\<close> on one character below 256: the characters that \<^verbatim>\<open>str.strip()\<close>
  removes and that the regular expression class \<^verbatim>\<open>\s\<close> matches.\<close>

definition isspace :: "char \<Rightarrow> bool" where
  "isspace c = (c \<in> {CHR 0x09, CHR 0x0A, CHR 0x0B, CHR 0x0C, CHR 0x0D, CHR 0x1C, CHR 0x1D,
     CHR 0x1E, CHR 0x1F, CHR 0x20, CHR 0x85, CHR 0xA0})"

text \<open>\<^verbatim>\<open>s.strip()\<close> and \<^verbatim>\<open>s.strip(chars)\<close>.\<close>

definition strip :: "string \<Rightarrow> string" where
  "strip s = rev (dropWhile isspace (rev (dropWhile isspace s)))"

definition strip_chars :: "string \<Rightarrow> string \<Rightarrow> string" where
  "strip_chars cs s =
     rev (dropWhile (\<lambda>c. c \<in> set cs) (rev (dropWhile (\<lambda>c. c \<in> set cs) s)))"

text \<open>\<^verbatim>\<open>s.startswith(p)\<close>.\<close>

fun startswith :: "string \<Rightarrow> string \<Rightarrow> bool" where
  "startswith s [] = True"
| "startswith [] (p # ps) = False"
| "startswith (c # cs) (p # ps) = (c = p \<and> startswith cs ps)"

text \<open>\<^verbatim>\<open>s.endswith(p)\<close>.\<close>

definition endswith :: "string \<Rightarrow> string \<Rightarrow> bool" where
  "endswith s p = startswith (rev s) (rev p)"

text \<open>\<^verbatim>\<open>s.split(sep)\<close> for a non-empty separator: a scan from the left that cuts at every
  occurrence of \<open>sep\<close> it meets and resumes after it; the result is never empty. (Python
  raises \<^verbatim>\<open>ValueError\<close> on an empty separator; the code only splits on two literals.)\<close>

function split_on :: "string \<Rightarrow> string \<Rightarrow> string list" where
  "split_on sep s =
     (if sep = [] \<or> s = [] then [s]
      else if startswith s sep then [] # split_on sep (drop (length sep) s)
      else (case split_on sep (tl s) of
              p # ps \<Rightarrow> (hd s # p) # ps
            | [] \<Rightarrow> [[hd s]]))"
  by pat_completeness auto
termination
  by (relation "measure (\<lambda>(sep, s). length s)") auto

declare split_on.simps [simp del]

text \<open>\<^verbatim>\<open>sep.join(parts)\<close>.\<close>

fun join :: "string \<Rightarrow> string list \<Rightarrow> string" where
  "join sep [] = []"
| "join sep [x] = x"
| "join sep (x # y # ys) = x @ sep @ join sep (y # ys)"

text \<open>\<^verbatim>\<open>str(n)\<close> for an \<^verbatim>\<open>int\<close>.\<close>

fun str_nat :: "nat \<Rightarrow> string" where
  "str_nat n =
     (if n < 10 then [''0123456789'' ! n]
      else str_nat (n div 10) @ [''0123456789'' ! (n mod 10)])"

declare str_nat.simps [simp del]

definition str_int :: "int \<Rightarrow> string" where
  "str_int i = (if i < 0 then CHR ''-'' # str_nat (nat (- i)) else str_nat (nat i))"

subsection \<open>The map formatter: format_output\<close>

text \<open>A grid is a list of rows, a row a list of cells, a cell a one-character string:
  \<^verbatim>\<open>'?'\<close> for a die, \<^verbatim>\<open>'*'\<close> for an edge cell, \<^verbatim>\<open>'.'\<close> for everything else.\<close>

type_synonym grid = "string list list"

definition quoted :: "string \<Rightarrow> string" where
  "quoted s = dq # s @ [dq]"

text \<open>The list \<^verbatim>\<open>header\<close> of \<^verbatim>\<open>format_output\<close>. The text \<^verbatim>\<open>str(diameter)\<close> of the
  float is the parameter \<open>diam_str\<close>; \<^verbatim>\<open>bin_rows=None\<close> is the empty list (both are
  false in \<^verbatim>\<open>if bin_rows\<close>).\<close>

definition rvd :: "nat \<Rightarrow> string" where
  "rvd n = join '','' (replicate n (quoted ''RVD''))"

definition header_lines :: "grid \<Rightarrow> string \<Rightarrow> string \<Rightarrow> int \<Rightarrow> string list \<Rightarrow> string list" where
  "header_lines grid wafer_id diam_str die_count bin_rows =
     (let n_rows = length grid;
          n_cols = (if grid \<noteq> [] then length (hd grid) else 0)
      in [quoted wafer_id @ '',6,'' @ quoted ''METRIC'' @ '','' @ quoted ''BOTTOM'' @ '','' @
            quoted diam_str @ '','' @ quoted diam_str @ '','' @
            str_nat n_rows @ '','' @ str_nat n_cols @ '','' @ quoted ''0'' @ '','' @ quoted ''0'',
          quoted ''44'' @ '','' @ quoted ''4'', quoted ''0'', quoted ''1'' @ '','' @ quoted ''4'',
          quoted ''POST'', ''0'', ''0'', ''0'',
          quoted ''FALSE'', ''0'', ''0'', quoted ''FALSE'', quoted ''0'', quoted ''0'',
          quoted (str_int die_count),
          rvd 3, quoted ''FALSE'', quoted '''', quoted ''0'', quoted ''100:6'',
          rvd 11,
          quoted '''', quoted '''',
          rvd 14]
         @ (if bin_rows \<noteq> [] then quoted (str_nat (length bin_rows)) # bin_rows else []))"

text \<open>What one pass of the loop over the grid rows appends to \<^verbatim>\<open>out\<close>.\<close>

definition row_cells :: "string list \<Rightarrow> string" where
  "row_cells row = join '','' (map quoted row)"

definition format_row :: "string \<Rightarrow> string list \<Rightarrow> string" where
  "format_row line_mode row =
     (if line_mode = ''sinf'' then (row_cells row @ [CHR '','', dq, CR, dq]) @ [CR, LF]
      else if line_mode = ''crlf'' then row_cells row @ [CR, LF]
      else row_cells row @ [LF])"

definition format_output ::
  "grid \<Rightarrow> string \<Rightarrow> string \<Rightarrow> int \<Rightarrow> string \<Rightarrow> string list \<Rightarrow> string" where
  "format_output grid wafer_id diam_str die_count line_mode bin_rows =
     concat (map (\<lambda>h. h @ [CR, LF]) (header_lines grid wafer_id diam_str die_count bin_rows))
     @ concat (map (format_row line_mode) grid)"

text \<open>The grid of the specification's scenario (one die at the origin, diameter 3 mm,
  die size 1 mm, edge dies shown), used as a concrete input below.\<close>

definition scenario_grid :: grid where
  "scenario_grid = [[''.'', ''*'', ''.''], [''*'', ''?'', ''*''], [''.'', ''*'', ''.'']]"

subsection \<open>The grid builder: build_grid\<close>

text \<open>A coordinate record is the tuple \<^verbatim>\<open>(x, y, name)\<close> that \<^verbatim>\<open>parse_gds2\<close> appends.\<close>

type_synonym coord = "real \<times> real \<times> string"

datatype py_error = ZeroDivisionError | IndexError

text \<open>\<^verbatim>\<open>round(x)\<close> of a float: the nearest integer, a tie going to the even one.\<close>

definition py_round :: "real \<Rightarrow> int" where
  "py_round x =
     (let f = \<lfloor>x\<rfloor>; d = x - of_int f
      in if d < 1 / 2 then f else if 1 / 2 < d then f + 1 else if even f then f else f + 1)"

text \<open>\<^verbatim>\<open>math.sqrt((gx * die_x)**2 + (gy * die_y)**2)\<close>: the distance of the nominal centre
  of the cell with index \<open>(gx, gy)\<close> from the origin.\<close>

definition center_dist :: "real \<Rightarrow> real \<Rightarrow> int \<Rightarrow> int \<Rightarrow> real" where
  "center_dist die_x die_y gx gy = sqrt ((of_int gx * die_x)\<^sup>2 + (of_int gy * die_y)\<^sup>2)"

text \<open>The first loop of \<^verbatim>\<open>build_grid\<close>, which fills \<^verbatim>\<open>die_set\<close>. The divisions
  \<^verbatim>\<open>x / die_x\<close> and \<^verbatim>\<open>y / die_y\<close> raise on a zero die size.\<close>

fun die_set_loop ::
  "coord list \<Rightarrow> real \<Rightarrow> real \<Rightarrow> real \<Rightarrow> (int \<times> int) set \<Rightarrow> py_error + (int \<times> int) set" where
  "die_set_loop [] half die_x die_y die_set = Inr die_set"
| "die_set_loop ((x, y, name) # coords) half die_x die_y die_set =
     (if die_x = 0 \<or> die_y = 0 then Inl ZeroDivisionError
      else let gx = py_round (x / die_x); gy = py_round (y / die_y)
           in die_set_loop coords half die_x die_y
                (if center_dist die_x die_y gx gy \<le> half then insert (gx, gy) die_set
                 else die_set))"

text \<open>The bounds \<^verbatim>\<open>(min_gx, max_gx, min_gy, max_gy)\<close>: the occupied indices with a margin
  of one cell, or the centred square when nothing is occupied.\<close>

definition grid_bounds ::
  "(int \<times> int) set \<Rightarrow> real \<Rightarrow> real \<Rightarrow> real \<Rightarrow> py_error + (int \<times> int \<times> int \<times> int)" where
  "grid_bounds die_set half die_x die_y =
     (if die_set \<noteq> {} then
        Inr (Min (fst ` die_set) - 1, Max (fst ` die_set) + 1,
             Min (snd ` die_set) - 1, Max (snd ` die_set) + 1)
      else if min die_x die_y = 0 then Inl ZeroDivisionError
      else let r = \<lceil>half / min die_x die_y\<rceil> + 1 in Inr (- r, r, - r, r))"

text \<open>The body of the inner loop: the symbol appended for the cell \<open>(gx, gy)\<close>.\<close>

definition cell_symbol ::
  "(int \<times> int) set \<Rightarrow> real \<Rightarrow> real \<Rightarrow> real \<Rightarrow> bool \<Rightarrow> int \<Rightarrow> int \<Rightarrow> string" where
  "cell_symbol die_set half die_x die_y show_edge gx gy =
     (let dist = center_dist die_x die_y gx gy
      in if dist > half then ''.''
         else if (gx, gy) \<in> die_set then ''?''
         else let edge = show_edge \<and>
                    list_ex (\<lambda>(dx, dy). (gx + dx, gy + dy) \<in> die_set)
                      [(- 1, 0), (1, 0), (0, - 1), (0, 1)]
              in if edge then ''*'' else ''.'')"

text \<open>\<^verbatim>\<open>range(max_gy, min_gy - 1, -1)\<close> is \<open>rev [min_gy..max_gy]\<close> and
  \<^verbatim>\<open>range(min_gx, max_gx + 1)\<close> is \<open>[min_gx..max_gx]\<close>.\<close>

definition build_grid :: "coord list \<Rightarrow> real \<Rightarrow> real \<Rightarrow> real \<Rightarrow> bool \<Rightarrow> py_error + grid" where
  "build_grid coords diameter die_x die_y show_edge =
     (let half = diameter / 2
      in case die_set_loop coords half die_x die_y {} of
           Inl e \<Rightarrow> Inl e
         | Inr die_set \<Rightarrow>
             (case grid_bounds die_set half die_x die_y of
                Inl e \<Rightarrow> Inl e
              | Inr (min_gx, max_gx, min_gy, max_gy) \<Rightarrow>
                  Inr (map (\<lambda>gy. map (\<lambda>gx. cell_symbol die_set half die_x die_y show_edge gx gy)
                                   [min_gx..max_gx])
                         (rev [min_gy..max_gy]))))"

text \<open>The occupied set in closed form: the rounded index of every coordinate whose
  nominal centre is within \<open>half\<close> of the origin.\<close>

definition grid_index :: "real \<Rightarrow> real \<Rightarrow> coord \<Rightarrow> int \<times> int" where
  "grid_index die_x die_y c = (py_round (fst c / die_x), py_round (fst (snd c) / die_y))"

definition occupied :: "coord list \<Rightarrow> real \<Rightarrow> real \<Rightarrow> real \<Rightarrow> (int \<times> int) set" where
  "occupied coords half die_x die_y =
     set (filter (\<lambda>(gx, gy). center_dist die_x die_y gx gy \<le> half)
           (map (grid_index die_x die_y) coords))"

subsection \<open>The pitch detector: detect_pitch\<close>

text \<open>\<^verbatim>\<open>collections.Counter(xs)\<close>: the keys in the order of their first occurrence,
  each with the number of its occurrences; \<open>counter_add\<close> is one \<^verbatim>\<open>c[x] += 1\<close>.\<close>

fun counter_add :: "'a \<Rightarrow> ('a \<times> nat) list \<Rightarrow> ('a \<times> nat) list" where
  "counter_add x [] = [(x, 1)]"
| "counter_add x ((k, n) # kvs) =
     (if k = x then (k, Suc n) # kvs else (k, n) # counter_add x kvs)"

definition Counter :: "'a list \<Rightarrow> ('a \<times> nat) list" where
  "Counter xs = foldl (\<lambda>c x. counter_add x c) [] xs"

text \<open>\<^verbatim>\<open>most_common(1)\<close> is \<^verbatim>\<open>max\<close> over the items by count, which keeps the first
  item among those with the greatest count; the result is a list of at most one item.\<close>

fun max_first :: "'a \<times> nat \<Rightarrow> ('a \<times> nat) list \<Rightarrow> 'a \<times> nat" where
  "max_first best [] = best"
| "max_first best (kv # kvs) = max_first (if snd best < snd kv then kv else best) kvs"

definition most_common1 :: "('a \<times> nat) list \<Rightarrow> ('a \<times> nat) list" where
  "most_common1 kvs = (case kvs of [] \<Rightarrow> [] | kv # rest \<Rightarrow> [max_first kv rest])"

text \<open>The inner function \<^verbatim>\<open>most_common_diff\<close>; indexing the empty result of
  \<^verbatim>\<open>most_common(1)\<close> would raise \<^verbatim>\<open>IndexError\<close>.\<close>

definition most_common_diff :: "real list \<Rightarrow> py_error + real option" where
  "most_common_diff vals =
     (if length vals < 2 then Inr None
      else let diffs = map (\<lambda>i. \<bar>vals ! (i + 1) - vals ! i\<bar>) [0..<length vals - 1];
               diffs = filter (\<lambda>d. d > 0) diffs
           in if diffs = [] then Inr None
              else (case most_common1 (Counter diffs) of
                      [] \<Rightarrow> Inl IndexError
                    | kv # _ \<Rightarrow> Inr (Some (fst kv))))"

definition detect_pitch :: "coord list \<Rightarrow> py_error + (real option \<times> real option)" where
  "detect_pitch coords =
     (let xs = sort (remdups (map (\<lambda>(x, y, _). x) coords));
          ys = sort (remdups (map (\<lambda>(x, y, _). y) coords))
      in case most_common_diff xs of
           Inl e \<Rightarrow> Inl e
         | Inr px \<Rightarrow> (case most_common_diff ys of
                        Inl e \<Rightarrow> Inl e
                      | Inr py \<Rightarrow> Inr (px, py)))"

text \<open>The pitch of one axis as the specification words it, to compare \<^verbatim>\<open>detect_pitch\<close>
  with: the consecutive differences of the ascending distinct values, the zero ones
  discarded, and a positive difference that no other difference occurs more often than;
  absent for fewer than two distinct values or no difference left.\<close>

definition consecutive_diffs :: "real list \<Rightarrow> real list" where
  "consecutive_diffs vals = map (\<lambda>(a, b). b - a) (zip vals (tl vals))"

definition positive_diffs :: "real list \<Rightarrow> real list" where
  "positive_diffs axis =
     filter (\<lambda>d. d \<noteq> 0) (consecutive_diffs (sorted_list_of_set (set axis)))"

definition most_frequent :: "real list \<Rightarrow> real \<Rightarrow> bool" where
  "most_frequent ds d = (d \<in> set ds \<and> 0 < d \<and> (\<forall>e\<in>set ds. count_list ds e \<le> count_list ds d))"

definition pitch_spec :: "real list \<Rightarrow> real option \<Rightarrow> bool" where
  "pitch_spec axis p =
     (if card (set axis) < 2 \<or> positive_diffs axis = [] then p = None
      else \<exists>d. p = Some d \<and> most_frequent (positive_diffs axis) d)"

subsection \<open>The coordinate extractor: parse_gds2\<close>

text \<open>\<^verbatim>\<open>str.splitlines()\<close>: the text is cut at every line boundary (LF, CR, CR LF,
  VT, FF, FS, GS, RS and NEL below 256), the boundaries are dropped, and a text that ends
  with a boundary has no empty last line.\<close>

definition is_linebreak :: "char \<Rightarrow> bool" where
  "is_linebreak c = (c \<in> {CHR 0x0A, CHR 0x0B, CHR 0x0C, CHR 0x0D, CHR 0x1C, CHR 0x1D, CHR 0x1E,
     CHR 0x85})"

fun splitlines_from :: "string \<Rightarrow> string \<Rightarrow> string list" where
  "splitlines_from acc [] = (if acc = [] then [] else [rev acc])"
| "splitlines_from acc [c] = (if is_linebreak c then [rev acc] else [rev (c # acc)])"
| "splitlines_from acc (c # d # cs) =
     (if c = CR \<and> d = LF then rev acc # splitlines_from [] cs
      else if is_linebreak c then rev acc # splitlines_from [] (d # cs)
      else splitlines_from (c # acc) (d # cs))"

definition splitlines :: "string \<Rightarrow> string list" where
  "splitlines s = splitlines_from [] s"

text \<open>The number pattern \<^verbatim>\<open>-?\d+(?:\.\d+)?\<close> at the start of a string, with the value
  \<^verbatim>\<open>float\<close> gives the matched text and the rest of the string. The pattern is greedy and
  in both places where the code uses it no shorter match can succeed.\<close>

definition isdigit :: "char \<Rightarrow> bool" where
  "isdigit c = (c \<in> set ''0123456789'')"

definition digit_val :: "char \<Rightarrow> nat" where
  "digit_val c = of_char c - 48"

definition digits_val :: "string \<Rightarrow> nat" where
  "digits_val ds = foldl (\<lambda>a c. 10 * a + digit_val c) 0 ds"

definition scan_number :: "string \<Rightarrow> (real \<times> string) option" where
  "scan_number s =
     (let neg = (s \<noteq> [] \<and> hd s = CHR ''-'');
          s1 = (if neg then tl s else s);
          ds = takeWhile isdigit s1;
          s2 = dropWhile isdigit s1;
          fs = (if s2 \<noteq> [] \<and> hd s2 = CHR ''.'' then takeWhile isdigit (tl s2) else []);
          s3 = (if fs \<noteq> [] then dropWhile isdigit (tl s2) else s2);
          v = real (digits_val ds) + real (digits_val fs) / 10 ^ length fs
      in if ds = [] then None else Some (if neg then - v else v, s3))"

text \<open>The four patterns, as \<^verbatim>\<open>match\<close> applies them at the start of a line:
  \<^verbatim>\<open>^SREF\s*$\<close>, \<^verbatim>\<open>^ENDEL\s*$\<close>, \<^verbatim>\<open>^SNAME\s+(.+)$\<close> (the result is group 1) and
  \<^verbatim>\<open>^XY\s+(num)\s*:\s*(num)\<close> (the result is the two numbers). The dot matches every
  character but the line feed, and the dollar matches at the end of the line and before
  one final line feed, so the group of the SNAME pattern is the text up to there
  (\<open>sname_try\<close>). The white space after \<^verbatim>\<open>SNAME\<close> is matched greedily and given back one
  character at a time while the rest does not match (\<open>sname_group\<close>, called after the
  first white space character). In the XY pattern no shorter match of a greedy part can
  succeed, since a number starts with no white space and is followed by none of its own
  characters.\<close>

definition re_sref :: "string \<Rightarrow> bool" where
  "re_sref line = (startswith line ''SREF'' \<and> list_all isspace (drop 4 line))"

definition re_endel :: "string \<Rightarrow> bool" where
  "re_endel line = (startswith line ''ENDEL'' \<and> list_all isspace (drop 5 line))"

definition sname_try :: "string \<Rightarrow> string option" where
  "sname_try rem =
     (let g = takeWhile (\<lambda>c. c \<noteq> LF) rem;
          e = dropWhile (\<lambda>c. c \<noteq> LF) rem
      in if g \<noteq> [] \<and> (e = [] \<or> e = [LF]) then Some g else None)"

fun sname_group :: "string \<Rightarrow> string option" where
  "sname_group [] = sname_try []"
| "sname_group (c # cs) =
     (if isspace c then
        (case sname_group cs of Some g \<Rightarrow> Some g | None \<Rightarrow> sname_try (c # cs))
      else sname_try (c # cs))"

definition re_sname :: "string \<Rightarrow> string option" where
  "re_sname line =
     (if startswith line ''SNAME'' then
        (case drop 5 line of
           [] \<Rightarrow> None
         | c # rest \<Rightarrow> if isspace c then sname_group rest else None)
      else None)"

definition re_xy :: "string \<Rightarrow> (real \<times> real) option" where
  "re_xy line =
     (if startswith line ''XY'' \<and> takeWhile isspace (drop 2 line) \<noteq> [] then
        (case scan_number (dropWhile isspace (drop 2 line)) of
           None \<Rightarrow> None
         | Some (a, r) \<Rightarrow>
             (case dropWhile isspace r of
                [] \<Rightarrow> None
              | c # r' \<Rightarrow>
                  if c = CHR '':'' then
                    (case scan_number (dropWhile isspace r') of
                       None \<Rightarrow> None
                     | Some (b, _) \<Rightarrow> Some (a, b))
                  else None))
      else None)"

text \<open>The state of the loop of \<^verbatim>\<open>parse_gds2\<close>: the flag \<^verbatim>\<open>in_sref\<close>, the name
  \<^verbatim>\<open>cur_sname\<close> (\<open>None\<close> for \<^verbatim>\<open>None\<close>) and the list \<^verbatim>\<open>coords\<close>. \<open>parse_line\<close> is
  the loop body for one line; the filter \<^verbatim>\<open>die_structure_names\<close> is a list, empty for
  "accept every name".\<close>

type_synonym pstate = "bool \<times> string option \<times> coord list"

definition parse_line :: "string list \<Rightarrow> pstate \<Rightarrow> string \<Rightarrow> pstate" where
  "parse_line die_structure_names st raw =
     (case st of (in_sref, cur_sname, coords) \<Rightarrow>
        let line = strip raw
        in if re_sref line then (True, None, coords)
           else if \<not> in_sref then st
           else (case re_sname line of
                   Some name \<Rightarrow> (in_sref, Some name, coords)
                 | None \<Rightarrow>
                     (case re_xy line of
                        Some (a, b) \<Rightarrow>
                          (case cur_sname of
                             Some name \<Rightarrow>
                               if name \<noteq> [] \<and> (die_structure_names = [] \<or>
                                    name \<in> set die_structure_names)
                               then (in_sref, cur_sname,
                                     coords @ [(a / 1000000, b / 1000000, name)])
                               else st
                           | None \<Rightarrow> st)
                      | None \<Rightarrow> if re_endel line then (False, cur_sname, coords) else st)))"

definition parse_lines :: "string list \<Rightarrow> string list \<Rightarrow> pstate" where
  "parse_lines die_structure_names lines =
     foldl (parse_line die_structure_names) (False, None, []) lines"

definition parse_gds2 :: "string \<Rightarrow> string list \<Rightarrow> coord list" where
  "parse_gds2 text die_structure_names =
     snd (snd (parse_lines die_structure_names (splitlines text)))"

text \<open>Where a line stands, read off the listing alone. After the lines \<open>pre\<close> the
  scan is inside an SREF...ENDEL block when \<open>pre\<close> has an SREF line with no ENDEL line
  after it; the block is still unnamed when \<open>pre\<close> has an SREF line with no SNAME line
  after it.\<close>

definition inside_block :: "string list \<Rightarrow> bool" where
  "inside_block pre =
     (\<exists>a s b. pre = a @ s # b \<and> re_sref (strip s) \<and> (\<forall>k\<in>set b. \<not> re_endel (strip k)))"

definition unnamed_block :: "string list \<Rightarrow> bool" where
  "unnamed_block pre =
     (\<exists>a s b. pre = a @ s # b \<and> re_sref (strip s) \<and> (\<forall>k\<in>set b. re_sname (strip k) = None))"

subsection \<open>The map reparser: the row recogniser of \<^verbatim>\<open>_update_from_raw_auto\<close>\<close>

text \<open>The delimiter \<^verbatim>\<open>'","'\<close> that a line is split on.\<close>

definition cell_sep :: string where
  "cell_sep = [dq, CHR '','', dq]"

text \<open>\<^verbatim>\<open>cells = [p.strip().strip('"') for p in parts]\<close> and the test
  \<^verbatim>\<open>all(c in ('.', '?', '*') for c in cells if c)\<close>.\<close>

definition line_cells :: "string \<Rightarrow> string list" where
  "line_cells line_s = map (\<lambda>p. strip_chars [dq] (strip p)) (split_on cell_sep line_s)"

definition is_symbol :: "string \<Rightarrow> bool" where
  "is_symbol c = (c \<in> {''.'', ''?'', ''*''})"

definition all_symbols :: "string list \<Rightarrow> bool" where
  "all_symbols cells = list_all is_symbol (filter (\<lambda>c. c \<noteq> []) cells)"

text \<open>The search loop: \<^verbatim>\<open>header_end\<close> starts as 0 and is set to the index of the first
  line that passes the test, where the loop breaks.\<close>

fun find_header_end :: "nat \<Rightarrow> string list \<Rightarrow> nat" where
  "find_header_end i [] = 0"
| "find_header_end i (line # lines) =
     (let line_s = strip line
      in if line_s = [] then find_header_end (Suc i) lines
         else let parts = split_on cell_sep line_s
              in if length parts < 10 then find_header_end (Suc i) lines
                 else if all_symbols (line_cells line_s) then i
                 else find_header_end (Suc i) lines)"

text \<open>The loop over \<^verbatim>\<open>map_lines\<close>, which builds \<^verbatim>\<open>new_grid\<close>.\<close>

fun collect_rows :: "string list \<Rightarrow> grid" where
  "collect_rows [] = []"
| "collect_rows (line # lines) =
     (let line_s = strip line
      in if line_s = [] then collect_rows lines
         else let cells = line_cells line_s
              in if cells \<noteq> [] \<and> all_symbols cells
                 then filter (\<lambda>c. c \<noteq> []) cells # collect_rows lines
                 else collect_rows lines)"

text \<open>The reparser: the grid that \<^verbatim>\<open>_update_from_raw_auto\<close> stores for the text of
  the raw view, or \<open>None\<close> where it returns without storing one. Nothing in it raises
  (the source wraps it in \<^verbatim>\<open>try\<close> all the same).\<close>

definition reparse :: "string \<Rightarrow> grid option" where
  "reparse raw_text =
     (let lines = split_on [LF] (strip raw_text);
          header_end = find_header_end 0 lines
      in if header_end = 0 then None
         else let new_grid = collect_rows (drop header_end lines)
              in if new_grid = [] then None else Some new_grid)"

text \<open>The test of the search loop on one line: not blank, at least ten parts, every
  non-empty cell a symbol.\<close>

definition starts_map :: "string \<Rightarrow> bool" where
  "starts_map line =
     (strip line \<noteq> [] \<and> 10 \<le> length (split_on cell_sep (strip line)) \<and>
      all_symbols (line_cells (strip line)))"

text \<open>Two concrete inputs: a row of ten \<^verbatim>\<open>'.'\<close> cells and a grid of two rows and ten
  columns.\<close>

definition ten_dots :: "string list" where
  "ten_dots = replicate 10 ''.''"

definition wide_grid :: grid where
  "wide_grid = [[''.'', ''.'', ''*'', ''*'', ''?'', ''?'', ''*'', ''*'', ''.'', ''.''],
                [''.'', ''*'', ''?'', ''?'', ''?'', ''?'', ''?'', ''?'', ''*'', ''.'']]"

text \<open>Notions used to state and prove the round trip. A formatted grid row is
  \<open>row_body\<close> (the quoted cells, with the quoted carriage return in SINF mode) followed by
  the white space \<open>row_ws\<close> and a line feed; \<open>cell_of\<close> is the cell the reparser reads off
  one part of a line; a \<open>plain_char\<close> is a visible character other than the double quote,
  the comma and the three cell symbols.\<close>

definition row_body :: "string \<Rightarrow> string list \<Rightarrow> string" where
  "row_body line_mode row =
     (if line_mode = ''sinf'' then row_cells row @ [CHR '','', dq, CR, dq] else row_cells row)"

definition row_ws :: "string \<Rightarrow> string" where
  "row_ws line_mode = (if line_mode = ''sinf'' \<or> line_mode = ''crlf'' then [CR] else [])"

definition cell_of :: "string \<Rightarrow> string" where
  "cell_of p = strip_chars [dq] (strip p)"

definition plain_char :: "char \<Rightarrow> bool" where
  "plain_char c = (\<not> isspace c \<and> c \<notin> {dq, CHR '','', CHR ''.'', CHR ''?'', CHR ''*''})"

section \<open>Properties of the formatter\<close>

lemma set_join: "set (join sep xs) \<subseteq> set sep \<union> (\<Union>x\<in>set xs. set x)"
  by (induction sep xs rule: join.induct) auto

lemma set_row_cells: "set (row_cells row) \<subseteq> {CHR '','', dq} \<union> (\<Union>c\<in>set row. set c)"
proof
  fix x assume "x \<in> set (row_cells row)"
  then have "x \<in> set '','' \<union> (\<Union>y\<in>set (map quoted row). set y)"
    unfolding row_cells_def using set_join[of "'',''" "map quoted row"] by blast
  then show "x \<in> {CHR '','', dq} \<union> (\<Union>c\<in>set row. set c)"
    by (auto simp: quoted_def split: if_splits)
qed

lemma row_cells_no_CR_LF:
  assumes "\<forall>c\<in>set row. CR \<notin> set c \<and> LF \<notin> set c"
  shows "CR \<notin> set (row_cells row) \<and> LF \<notin> set (row_cells row)"
  using assms set_row_cells[of row] by auto

lemma startswith_append: "startswith (p @ s) p"
  by (induction p) auto

lemma endswith_append: "endswith (s @ p) p"
  by (simp add: endswith_def startswith_append)

subsection \<open>SINF mode\<close>

text \<open>
  Claim C2, as the code has it. In SINF mode (\<^verbatim>\<open>line_mode == 'sinf'\<close>) the output is the
  header lines, each followed by CR LF, and then the grid rows, each followed by the six
  bytes comma, double quote, CR, double quote, CR, LF: the comma comes before the quoted
  carriage return, and nothing stands between that field and the final CR LF (the
  program's About box gives the line ending as \<^verbatim>\<open>22 0d 22 0d 0a\<close>).
\<close>

theorem sinf_row_ending:
  "format_output grid wafer_id diam_str die_count ''sinf'' bin_rows =
     concat (map (\<lambda>h. h @ [CR, LF]) (header_lines grid wafer_id diam_str die_count bin_rows))
     @ concat (map (\<lambda>row. row_cells row @ [CHR '','', dq, CR, dq, CR, LF]) grid)
   \<and> list_all (\<lambda>row. endswith (format_row ''sinf'' row) [CHR '','', dq, CR, dq, CR, LF]) grid"
proof -
  have row: "format_row ''sinf'' = (\<lambda>row. row_cells row @ [CHR '','', dq, CR, dq, CR, LF])"
    by (rule ext) (simp add: format_row_def)
  have "endswith (format_row ''sinf'' row) [CHR '','', dq, CR, dq, CR, LF]" for row
    unfolding row by (rule endswith_append)
  then have "list_all (\<lambda>row. endswith (format_row ''sinf'' row)
      [CHR '','', dq, CR, dq, CR, LF]) grid"
    by (simp add: list_all_iff)
  moreover have "format_output grid wafer_id diam_str die_count ''sinf'' bin_rows =
     concat (map (\<lambda>h. h @ [CR, LF]) (header_lines grid wafer_id diam_str die_count bin_rows))
     @ concat (map (\<lambda>row. row_cells row @ [CHR '','', dq, CR, dq, CR, LF]) grid)"
    unfolding format_output_def row ..
  ultimately show ?thesis by blast
qed

theorem sinf_row_ending_witness:
  "format_output scenario_grid ''W'' ''3.0'' 1 ''sinf'' [] =
     concat (map (\<lambda>h. h @ [CR, LF]) (header_lines scenario_grid ''W'' ''3.0'' 1 []))
     @ concat (map (\<lambda>row. row_cells row @ [CHR '','', dq, CR, dq, CR, LF]) scenario_grid)
   \<and> endswith (format_row ''sinf'' [''.'', ''*'', ''.'']) [CHR '','', dq, CR, dq, CR, LF]"
  using sinf_row_ending [of scenario_grid "''W''" "''3.0''" 1 "[]"]
  by (simp add: scenario_grid_def)

text \<open>
  Claim C2 as the specification words it (quoted CR, then a comma, then CR LF) fails: the
  output for the scenario grid does not end with the bytes double quote, CR, double quote,
  comma, CR, LF.
\<close>

theorem sinf_row_ending_counterexample:
  "\<not> endswith (format_output scenario_grid ''W'' ''3.0'' 1 ''sinf'' [])
       [dq, CR, dq, CHR '','', CR, LF]"
  by (simp add: endswith_def format_output_def scenario_grid_def format_row_def
      row_cells_def quoted_def)

subsection \<open>LF mode\<close>

text \<open>
  Claim C3, as the code has it. In every mode the output is the header lines and bin
  rows, each followed by CR LF, and then the grid rows, each followed by the ending of
  the mode: comma, quoted CR, CR LF for \<^verbatim>\<open>'sinf'\<close>, CR LF for \<^verbatim>\<open>'crlf'\<close>, and one line
  feed for every other \<^verbatim>\<open>line_mode\<close> (LF mode). So in LF mode every grid row is followed
  by one line feed, and a row whose cells hold neither CR nor LF (as the three cell
  symbols do) has none before it, while the header lines and bin rows are followed by
  CR LF, whatever the mode.
\<close>

theorem lf_mode_rows:
  "format_output grid wafer_id diam_str die_count line_mode bin_rows =
     concat (map (\<lambda>h. h @ [CR, LF]) (header_lines grid wafer_id diam_str die_count bin_rows))
     @ concat (map (\<lambda>row. row_cells row @
          (if line_mode = ''sinf'' then [CHR '','', dq, CR, dq, CR, LF]
           else if line_mode = ''crlf'' then [CR, LF]
           else [LF])) grid)
   \<and> (line_mode \<noteq> ''sinf'' \<and> line_mode \<noteq> ''crlf'' \<longrightarrow>
        format_output grid wafer_id diam_str die_count line_mode bin_rows =
          concat (map (\<lambda>h. h @ [CR, LF])
            (header_lines grid wafer_id diam_str die_count bin_rows))
          @ concat (map (\<lambda>row. row_cells row @ [LF]) grid))
   \<and> (\<forall>row\<in>set grid. (\<forall>c\<in>set row. CR \<notin> set c \<and> LF \<notin> set c) \<longrightarrow>
         CR \<notin> set (row_cells row) \<and> LF \<notin> set (row_cells row))"
proof -
  have row: "format_row line_mode = (\<lambda>row. row_cells row @
      (if line_mode = ''sinf'' then [CHR '','', dq, CR, dq, CR, LF]
       else if line_mode = ''crlf'' then [CR, LF]
       else [LF]))"
    by (rule ext) (simp add: format_row_def)
  have every: "format_output grid wafer_id diam_str die_count line_mode bin_rows =
     concat (map (\<lambda>h. h @ [CR, LF]) (header_lines grid wafer_id diam_str die_count bin_rows))
     @ concat (map (\<lambda>row. row_cells row @
          (if line_mode = ''sinf'' then [CHR '','', dq, CR, dq, CR, LF]
           else if line_mode = ''crlf'' then [CR, LF]
           else [LF])) grid)"
    unfolding format_output_def row ..
  have lf: "format_output grid wafer_id diam_str die_count line_mode bin_rows =
          concat (map (\<lambda>h. h @ [CR, LF])
            (header_lines grid wafer_id diam_str die_count bin_rows))
          @ concat (map (\<lambda>row. row_cells row @ [LF]) grid)"
    if "line_mode \<noteq> ''sinf''" "line_mode \<noteq> ''crlf''"
    unfolding every using that by simp
  have cells: "\<forall>row\<in>set grid. (\<forall>c\<in>set row. CR \<notin> set c \<and> LF \<notin> set c) \<longrightarrow>
         CR \<notin> set (row_cells row) \<and> LF \<notin> set (row_cells row)"
    using row_cells_no_CR_LF by blast
  show ?thesis
    using every lf cells by blast
qed

theorem lf_mode_rows_witness:
  "format_output scenario_grid ''W'' ''3.0'' 1 ''lf'' [''BIN,1,PASS''] =
     concat (map (\<lambda>h. h @ [CR, LF])
       (header_lines scenario_grid ''W'' ''3.0'' 1 [''BIN,1,PASS'']))
     @ concat (map (\<lambda>row. row_cells row @ [LF]) scenario_grid)
   \<and> format_output scenario_grid ''W'' ''3.0'' 1 ''crlf'' [''BIN,1,PASS''] =
     concat (map (\<lambda>h. h @ [CR, LF])
       (header_lines scenario_grid ''W'' ''3.0'' 1 [''BIN,1,PASS'']))
     @ concat (map (\<lambda>row. row_cells row @ [CR, LF]) scenario_grid)
   \<and> CR \<notin> set (row_cells [''.'', ''*'', ''.''])
   \<and> LF \<notin> set (row_cells [''.'', ''*'', ''.''])"
  using lf_mode_rows [of scenario_grid "''W''" "''3.0''" 1 "''lf''" "[''BIN,1,PASS'']"]
    lf_mode_rows [of scenario_grid "''W''" "''3.0''" 1 "''crlf''" "[''BIN,1,PASS'']"]
  by (simp add: scenario_grid_def)

text \<open>
  Claim C3 as the specification words it (no carriage return anywhere in LF mode, header
  lines included) fails: in LF mode the first line of the output for the scenario grid,
  the text up to the first line feed, is the first header line followed by a carriage
  return.
\<close>

theorem lf_mode_counterexample:
  "CR \<in> set (format_output scenario_grid ''W'' ''3.0'' 1 ''lf'' [])
   \<and> takeWhile (\<lambda>c. c \<noteq> LF) (format_output scenario_grid ''W'' ''3.0'' 1 ''lf'' []) =
       quoted ''W'' @ '',6,'' @ quoted ''METRIC'' @ '','' @ quoted ''BOTTOM'' @ '','' @
       quoted ''3.0'' @ '','' @ quoted ''3.0'' @ '',3,3,'' @ quoted ''0'' @ '','' @
       quoted ''0'' @ [CR]"
  by (simp add: format_output_def header_lines_def scenario_grid_def quoted_def
      str_nat.simps)

section \<open>Properties of the grid builder\<close>

subsection \<open>Distances, the occupied set and the shape of the grid\<close>

lemma center_dist_nonneg: "0 \<le> center_dist die_x die_y gx gy"
  by (simp add: center_dist_def)

lemma center_dist_le_iff:
  "center_dist die_x die_y gx gy \<le> h \<longleftrightarrow>
     0 \<le> h \<and> (of_int gx * die_x)\<^sup>2 + (of_int gy * die_y)\<^sup>2 \<le> h\<^sup>2"
proof (cases "0 \<le> h")
  case True
  then show ?thesis
    unfolding center_dist_def by (metis real_le_lsqrt sqrt_le_D)
next
  case False
  then show ?thesis
    using center_dist_nonneg[of die_x die_y gx gy] by simp
qed

lemma center_dist_gt_iff:
  "h < center_dist die_x die_y gx gy \<longleftrightarrow>
     \<not> (0 \<le> h \<and> (of_int gx * die_x)\<^sup>2 + (of_int gy * die_y)\<^sup>2 \<le> h\<^sup>2)"
  using center_dist_le_iff[of die_x die_y gx gy h] by auto

lemma die_set_loop_eq:
  "die_x \<noteq> 0 \<Longrightarrow> die_y \<noteq> 0 \<Longrightarrow>
   die_set_loop coords half die_x die_y S = Inr (S \<union> occupied coords half die_x die_y)"
  by (induction coords arbitrary: S) (auto simp: occupied_def grid_index_def Let_def)

lemma die_set_loop_finite:
  "die_set_loop coords half die_x die_y S = Inr die_set \<Longrightarrow> finite S \<Longrightarrow> finite die_set"
  by (induction coords arbitrary: S) (auto simp: Let_def split: if_splits)

lemma grid_bounds_total:
  "0 < die_x \<Longrightarrow> 0 < die_y \<Longrightarrow> \<exists>b. grid_bounds die_set half die_x die_y = Inr b"
  by (auto simp: grid_bounds_def Let_def)

lemma build_grid_Inr:
  assumes "die_set_loop coords (diameter / 2) die_x die_y {} = Inr die_set"
    and "grid_bounds die_set (diameter / 2) die_x die_y = Inr (min_gx, max_gx, min_gy, max_gy)"
  shows "build_grid coords diameter die_x die_y show_edge =
     Inr (map (\<lambda>gy. map (\<lambda>gx. cell_symbol die_set (diameter / 2) die_x die_y show_edge gx gy)
                      [min_gx..max_gx])
            (rev [min_gy..max_gy]))"
  using assms by (simp add: build_grid_def)

lemma build_grid_InrD:
  assumes "build_grid coords diameter die_x die_y show_edge = Inr grid"
  shows "\<exists>die_set min_gx max_gx min_gy max_gy.
     die_set_loop coords (diameter / 2) die_x die_y {} = Inr die_set \<and>
     grid_bounds die_set (diameter / 2) die_x die_y = Inr (min_gx, max_gx, min_gy, max_gy) \<and>
     grid = map (\<lambda>gy. map (\<lambda>gx. cell_symbol die_set (diameter / 2) die_x die_y show_edge gx gy)
                      [min_gx..max_gx])
              (rev [min_gy..max_gy])"
  using assms by (auto simp: build_grid_def Let_def split: sum.splits prod.splits)

lemma rev_upto_nth:
  assumes "i < length [c..d]"
  shows "rev [c..d] ! i = d - int i"
proof -
  have "rev [c..d] ! i = [c..d] ! (length [c..d] - Suc i)"
    using assms by (rule rev_nth)
  also have "\<dots> = c + int (length [c..d] - Suc i)"
    using assms by (intro nth_upto) auto
  also have "\<dots> = d - int i"
    using assms by auto
  finally show ?thesis .
qed

lemma grid_cell:
  fixes f :: "int \<Rightarrow> int \<Rightarrow> string"
  assumes "grid = map (\<lambda>gy. map (\<lambda>gx. f gx gy) [min_gx..max_gx]) (rev [min_gy..max_gy])"
    and "i < length grid" and "j < length (grid ! i)"
  shows "grid ! i ! j = f (min_gx + int j) (max_gy - int i)"
proof -
  have i: "i < length [min_gy..max_gy]"
    using assms(1,2) by simp
  then have row: "grid ! i = map (\<lambda>gx. f gx (max_gy - int i)) [min_gx..max_gx]"
    using assms(1) by (simp add: rev_upto_nth del: length_upto)
  then have j: "j < length [min_gx..max_gx]"
    using assms(3) by simp
  then have "[min_gx..max_gx] ! j = min_gx + int j"
    by (intro nth_upto) auto
  then show ?thesis
    using row j by (simp del: length_upto)
qed

lemma cell_symbol_star_iff:
  "cell_symbol die_set half die_x die_y show_edge gx gy = ''*'' \<longleftrightarrow>
     show_edge \<and> cell_symbol die_set half die_x die_y show_edge gx gy \<noteq> ''?'' \<and>
     center_dist die_x die_y gx gy \<le> half \<and>
     ((gx - 1, gy) \<in> die_set \<or> (gx + 1, gy) \<in> die_set \<or>
      (gx, gy - 1) \<in> die_set \<or> (gx, gy + 1) \<in> die_set)"
  by (auto simp: cell_symbol_def Let_def)

lemma cell_symbol_occupied:
  "cell_symbol die_set half die_x die_y show_edge gx gy = ''?'' \<longleftrightarrow>
     center_dist die_x die_y gx gy \<le> half \<and> (gx, gy) \<in> die_set"
  by (auto simp: cell_symbol_def Let_def)

lemma cell_symbol_outside:
  "half < center_dist die_x die_y gx gy \<Longrightarrow>
     cell_symbol die_set half die_x die_y show_edge gx gy = ''.''"
  by (simp add: cell_symbol_def)

lemma scenario_build_grid:
  "build_grid [(0, 0, ''die'')] 3 1 1 True = Inr scenario_grid"
  apply (simp only: build_grid_def cell_symbol_def Let_def die_set_loop.simps
      center_dist_le_iff center_dist_gt_iff)
  apply (simp add: py_round_def grid_bounds_def scenario_grid_def upto.simps)
  done

lemma small_wafer_build_grid:
  "build_grid [(0, 0, ''die'')] 2 1 1 True = Inr scenario_grid"
  apply (simp only: build_grid_def cell_symbol_def Let_def die_set_loop.simps
      center_dist_le_iff center_dist_gt_iff)
  apply (simp add: py_round_def grid_bounds_def scenario_grid_def upto.simps)
  done

lemma cell_symbol_empty: "cell_symbol {} half die_x die_y show_edge gx gy = ''.''"
  by (simp add: cell_symbol_def)

lemma occupied_empty_iff:
  "occupied coords half die_x die_y = {} \<longleftrightarrow>
     (\<forall>c\<in>set coords. half < center_dist die_x die_y (fst (grid_index die_x die_y c))
                                (snd (grid_index die_x die_y c)))"
proof -
  have "occupied coords half die_x die_y = {} \<longleftrightarrow>
      (\<forall>p\<in>set (map (grid_index die_x die_y) coords).
         \<not> center_dist die_x die_y (fst p) (snd p) \<le> half)"
    unfolding occupied_def by (simp only: set_empty filter_empty_conv case_prod_beta)
  then show ?thesis
    by (simp add: not_le)
qed


subsection \<open>Edge adjacency\<close>

text \<open>
  Claim C6. In every grid that \<^verbatim>\<open>build_grid\<close> returns, the cell in row \<open>i\<close> and column
  \<open>j\<close>, whose index is \<open>(min_gx + j, max_gy - i)\<close>, is the edge symbol \<^verbatim>\<open>'*'\<close> if and only
  if \<^verbatim>\<open>show_edge\<close> is true, the cell is not the die symbol \<^verbatim>\<open>'?'\<close>, its nominal centre is
  within \<open>diameter / 2\<close> of the origin, and one of its four axis neighbours is in the
  occupied set \<^verbatim>\<open>die_set\<close>.
\<close>

theorem edge_iff:
  assumes "build_grid coords diameter die_x die_y show_edge = Inr grid"
  shows "\<exists>die_set min_gx max_gx min_gy max_gy.
     die_set_loop coords (diameter / 2) die_x die_y {} = Inr die_set \<and>
     grid_bounds die_set (diameter / 2) die_x die_y = Inr (min_gx, max_gx, min_gy, max_gy) \<and>
     (\<forall>i<length grid. \<forall>j<length (grid ! i).
        let gx = min_gx + int j; gy = max_gy - int i
        in (grid ! i ! j = ''*'') =
           (show_edge \<and> grid ! i ! j \<noteq> ''?'' \<and>
            center_dist die_x die_y gx gy \<le> diameter / 2 \<and>
            ((gx - 1, gy) \<in> die_set \<or> (gx + 1, gy) \<in> die_set \<or>
             (gx, gy - 1) \<in> die_set \<or> (gx, gy + 1) \<in> die_set)))"
proof -
  obtain die_set min_gx max_gx min_gy max_gy where
    ds: "die_set_loop coords (diameter / 2) die_x die_y {} = Inr die_set" and
    gb: "grid_bounds die_set (diameter / 2) die_x die_y = Inr (min_gx, max_gx, min_gy, max_gy)" and
    g: "grid = map (\<lambda>gy. map (\<lambda>gx. cell_symbol die_set (diameter / 2) die_x die_y show_edge gx gy)
                      [min_gx..max_gx]) (rev [min_gy..max_gy])"
    using build_grid_InrD[OF assms] by blast
  have "(grid ! i ! j = ''*'') =
           (show_edge \<and> grid ! i ! j \<noteq> ''?'' \<and>
            center_dist die_x die_y (min_gx + int j) (max_gy - int i) \<le> diameter / 2 \<and>
            ((min_gx + int j - 1, max_gy - int i) \<in> die_set \<or> (min_gx + int j + 1, max_gy - int i) \<in> die_set \<or>
             (min_gx + int j, max_gy - int i - 1) \<in> die_set \<or> (min_gx + int j, max_gy - int i + 1) \<in> die_set))"
    if "i < length grid" "j < length (grid ! i)" for i j
    unfolding grid_cell[OF g that] by (rule cell_symbol_star_iff)
  then show ?thesis
    using ds gb unfolding Let_def by blast
qed

theorem edge_iff_witness:
  "build_grid [(0, 0, ''die'')] 3 1 1 True = Inr scenario_grid \<and>
   (\<exists>die_set min_gx max_gx min_gy max_gy.
     die_set_loop [(0, 0, ''die'')] (3 / 2) 1 1 {} = Inr die_set \<and>
     grid_bounds die_set (3 / 2) 1 1 = Inr (min_gx, max_gx, min_gy, max_gy) \<and>
     (\<forall>i<length scenario_grid. \<forall>j<length (scenario_grid ! i).
        let gx = min_gx + int j; gy = max_gy - int i
        in (scenario_grid ! i ! j = ''*'') =
           (True \<and> scenario_grid ! i ! j \<noteq> ''?'' \<and>
            center_dist 1 1 gx gy \<le> 3 / 2 \<and>
            ((gx - 1, gy) \<in> die_set \<or> (gx + 1, gy) \<in> die_set \<or>
             (gx, gy - 1) \<in> die_set \<or> (gx, gy + 1) \<in> die_set))))"
  using edge_iff [OF scenario_build_grid] scenario_build_grid by simp


subsection \<open>Grid containment\<close>

text \<open>
  Claim C7. For positive die sizes \<^verbatim>\<open>build_grid\<close> returns a grid, and in it every cell
  that is the die symbol \<^verbatim>\<open>'?'\<close> has its nominal centre within \<open>diameter / 2\<close> of the
  origin, while every cell whose centre is farther than \<open>diameter / 2\<close> is \<^verbatim>\<open>'.'\<close>, never
  \<^verbatim>\<open>'?'\<close> or \<^verbatim>\<open>'*'\<close>.
\<close>

theorem grid_containment:
  assumes "0 < die_x" and "0 < die_y"
  shows "\<exists>grid die_set min_gx max_gx min_gy max_gy.
     build_grid coords diameter die_x die_y show_edge = Inr grid \<and>
     die_set_loop coords (diameter / 2) die_x die_y {} = Inr die_set \<and>
     grid_bounds die_set (diameter / 2) die_x die_y = Inr (min_gx, max_gx, min_gy, max_gy) \<and>
     (\<forall>i<length grid. \<forall>j<length (grid ! i).
        let gx = min_gx + int j; gy = max_gy - int i
        in (grid ! i ! j = ''?'' \<longrightarrow> center_dist die_x die_y gx gy \<le> diameter / 2) \<and>
           (diameter / 2 < center_dist die_x die_y gx gy \<longrightarrow>
              grid ! i ! j = ''.'' \<and> grid ! i ! j \<noteq> ''?'' \<and> grid ! i ! j \<noteq> ''*''))"
proof -
  let ?half = "diameter / 2"
  have ds: "die_set_loop coords ?half die_x die_y {} = Inr (occupied coords ?half die_x die_y)"
    using assms die_set_loop_eq[of die_x die_y coords ?half "{}"] by simp
  obtain min_gx max_gx min_gy max_gy where
    gb: "grid_bounds (occupied coords ?half die_x die_y) ?half die_x die_y =
           Inr (min_gx, max_gx, min_gy, max_gy)"
    using grid_bounds_total[OF assms] by (metis prod_cases4)
  define grid where "grid = map (\<lambda>gy. map (\<lambda>gx.
      cell_symbol (occupied coords ?half die_x die_y) ?half die_x die_y show_edge gx gy)
      [min_gx..max_gx]) (rev [min_gy..max_gy])"
  have bg: "build_grid coords diameter die_x die_y show_edge = Inr grid"
    unfolding grid_def by (rule build_grid_Inr[OF ds gb])
  have "(grid ! i ! j = ''?'' \<longrightarrow>
           center_dist die_x die_y (min_gx + int j) (max_gy - int i) \<le> ?half) \<and>
        (?half < center_dist die_x die_y (min_gx + int j) (max_gy - int i) \<longrightarrow>
           grid ! i ! j = ''.'' \<and> grid ! i ! j \<noteq> ''?'' \<and> grid ! i ! j \<noteq> ''*'')"
    if "i < length grid" "j < length (grid ! i)" for i j
    unfolding grid_cell[OF grid_def that]
    by (simp add: cell_symbol_occupied cell_symbol_outside)
  then show ?thesis
    using bg ds gb unfolding Let_def by blast
qed

theorem grid_containment_witness:
  "build_grid [(0, 0, ''die'')] 2 1 1 True = Inr scenario_grid \<and>
   2 / 2 < center_dist 1 1 (- 1) 1 \<and> scenario_grid ! 0 ! 0 = ''.'' \<and>
   (\<exists>grid die_set min_gx max_gx min_gy max_gy.
     build_grid [(0, 0, ''die'')] 2 1 1 True = Inr grid \<and>
     die_set_loop [(0, 0, ''die'')] (2 / 2) 1 1 {} = Inr die_set \<and>
     grid_bounds die_set (2 / 2) 1 1 = Inr (min_gx, max_gx, min_gy, max_gy) \<and>
     (\<forall>i<length grid. \<forall>j<length (grid ! i).
        let gx = min_gx + int j; gy = max_gy - int i
        in (grid ! i ! j = ''?'' \<longrightarrow> center_dist 1 1 gx gy \<le> 2 / 2) \<and>
           (2 / 2 < center_dist 1 1 gx gy \<longrightarrow>
              grid ! i ! j = ''.'' \<and> grid ! i ! j \<noteq> ''?'' \<and> grid ! i ! j \<noteq> ''*'')))"
  using grid_containment [of 1 1 "[(0, 0, ''die'')]" 2 True] small_wafer_build_grid
  by (simp add: center_dist_gt_iff scenario_grid_def)

subsection \<open>The fallback grid\<close>

text \<open>
  Claim C10. For a positive diameter and positive die sizes, when no coordinate has a
  rounded index whose centre is within \<open>diameter / 2\<close> (so in particular for no
  coordinates at all), \<^verbatim>\<open>build_grid\<close> returns the square grid with indices from \<open>-r\<close> to
  \<open>r\<close> on both axes, \<open>r = ceil((diameter / 2) / min(die_x, die_y)) + 1\<close>, of side
  \<open>2 * r + 1\<close>, every cell of which is \<^verbatim>\<open>'.'\<close>, whatever \<^verbatim>\<open>show_edge\<close> is.
\<close>

theorem empty_fallback:
  assumes "0 < diameter" and "0 < die_x" and "0 < die_y"
    and "\<forall>c\<in>set coords. diameter / 2 < center_dist die_x die_y
           (fst (grid_index die_x die_y c)) (snd (grid_index die_x die_y c))"
  shows "let r = \<lceil>(diameter / 2) / min die_x die_y\<rceil> + 1
     in 2 \<le> r \<and>
        die_set_loop coords (diameter / 2) die_x die_y {} = Inr {} \<and>
        grid_bounds {} (diameter / 2) die_x die_y = Inr (- r, r, - r, r) \<and>
        build_grid coords diameter die_x die_y show_edge =
          Inr (replicate (nat (2 * r + 1)) (replicate (nat (2 * r + 1)) ''.''))"
proof -
  let ?half = "diameter / 2"
  define r where "r = \<lceil>?half / min die_x die_y\<rceil> + 1"
  have "0 < ?half / min die_x die_y"
    using assms(1-3) by (simp add: min_def)
  then have r2: "2 \<le> r"
    unfolding r_def by linarith
  have "occupied coords ?half die_x die_y = {}"
    using assms(4) by (simp add: occupied_empty_iff)
  then have ds: "die_set_loop coords ?half die_x die_y {} = Inr {}"
    using assms(2,3) die_set_loop_eq[of die_x die_y coords ?half "{}"] by simp
  have "0 < min die_x die_y"
    using assms(2,3) by simp
  then have "min die_x die_y \<noteq> 0"
    by linarith
  then have gb: "grid_bounds {} ?half die_x die_y = Inr (- r, r, - r, r)"
    by (simp add: grid_bounds_def r_def Let_def)
  have len: "length [- r..r] = nat (2 * r + 1)"
    by simp
  have "build_grid coords diameter die_x die_y show_edge =
      Inr (map (\<lambda>gy. map (\<lambda>gx. ''.'') [- r..r]) (rev [- r..r]))"
    using build_grid_Inr[OF ds gb] by (simp add: cell_symbol_empty)
  also have "map (\<lambda>gy. map (\<lambda>gx. ''.'') [- r..r]) (rev [- r..r]) =
      replicate (nat (2 * r + 1)) (replicate (nat (2 * r + 1)) ''.'')"
    by (simp only: map_replicate_const length_rev len)
  finally show ?thesis
    using r2 ds gb unfolding r_def Let_def by blast
qed

theorem empty_fallback_witness:
  "(2::int) \<le> 6 \<and>
   die_set_loop [] (10 / 2) 1 1 {} = Inr {} \<and>
   grid_bounds {} (10 / 2) 1 1 = Inr (- 6, 6, - 6, 6) \<and>
   build_grid [] 10 1 1 True = Inr (replicate 13 (replicate 13 ''.''))"
  using empty_fallback [of 10 1 1 "[]" True] by simp


subsection \<open>The symbol of cells outside the wafer and of empty cells inside it\<close>

text \<open>
  Claim C4, as the code has it. A cell whose centre is beyond the radius (Outside) and a
  cell within the radius that is neither occupied nor an edge cell (Inside-Empty) get the
  same symbol \<^verbatim>\<open>'.'\<close>; only dies (\<^verbatim>\<open>'?'\<close>) and edge cells (\<^verbatim>\<open>'*'\<close>) are told apart in
  the output.
\<close>

theorem outside_inside_empty_symbol:
  assumes "half < center_dist die_x die_y gx gy"
    and "center_dist die_x die_y gx' gy' \<le> half"
    and "(gx', gy') \<notin> die_set"
    and "cell_symbol die_set half die_x die_y show_edge gx' gy' \<noteq> ''*''"
  shows "cell_symbol die_set half die_x die_y show_edge gx gy = ''.'' \<and>
         cell_symbol die_set half die_x die_y show_edge gx' gy' = ''.''"
  using assms by (auto simp: cell_symbol_def Let_def split: if_splits)

theorem outside_inside_empty_symbol_witness:
  "1 < center_dist 1 1 1 1 \<and> center_dist 1 1 0 1 \<le> 1 \<and> (0, 1) \<notin> {(0::int, 0::int)} \<and>
   cell_symbol {(0, 0)} 1 1 1 False 0 1 \<noteq> ''*'' \<and>
   cell_symbol {(0, 0)} 1 1 1 False 1 1 = ''.'' \<and>
   cell_symbol {(0, 0)} 1 1 1 False 0 1 = ''.''"
proof -
  have a: "1 < center_dist 1 1 1 1" by (simp add: center_dist_gt_iff)
  have b: "center_dist 1 1 0 1 \<le> 1" by (simp add: center_dist_le_iff)
  have c: "(0, 1) \<notin> {(0::int, 0::int)}" by simp
  have d: "cell_symbol {(0, 0)} 1 1 1 False 0 1 \<noteq> ''*''"
    by (simp add: cell_symbol_def)
  show ?thesis
    using outside_inside_empty_symbol [OF a b c d] a b c d by simp
qed


text \<open>
  Claim C4 as the specification words it fails: there are no occupied set, radius, die
  size and pair of cells, one Outside and one Inside-Empty, whose quoted symbols in the
  output differ.
\<close>

theorem distinct_symbols_counterexample:
  "\<not> (\<exists>die_set half die_x die_y show_edge gx gy gx' gy'.
        half < center_dist die_x die_y gx gy \<and>
        center_dist die_x die_y gx' gy' \<le> half \<and> (gx', gy') \<notin> die_set \<and>
        cell_symbol die_set half die_x die_y show_edge gx' gy' \<noteq> ''*'' \<and>
        quoted (cell_symbol die_set half die_x die_y show_edge gx gy) \<noteq>
        quoted (cell_symbol die_set half die_x die_y show_edge gx' gy'))"
  by (auto simp: cell_symbol_def Let_def split: if_splits)

section \<open>Properties of the pitch detector\<close>

lemma counter_add_map_of:
  "map_of (counter_add x c) =
     (map_of c)(x \<mapsto> (case map_of c x of None \<Rightarrow> 1 | Some n \<Rightarrow> Suc n))"
  by (induction x c rule: counter_add.induct) (auto simp: fun_eq_iff)

lemma counter_add_keys: "map fst (counter_add x c) = (if x \<in> fst ` set c then map fst c else map fst c @ [x])"
  by (induction x c rule: counter_add.induct) (auto)

lemma Counter_snoc: "Counter (xs @ [x]) = counter_add x (Counter xs)"
  by (simp add: Counter_def)

lemma Counter_props:
  "distinct (map fst (Counter xs)) \<and> fst ` set (Counter xs) = set xs \<and>
   (\<forall>y. map_of (Counter xs) y = (if y \<in> set xs then Some (count_list xs y) else None))"
proof (induction xs rule: rev_induct)
  case Nil
  then show ?case by (simp add: Counter_def)
next
  case (snoc x xs)
  have d: "distinct (map fst (Counter (xs @ [x])))"
    using snoc by (simp add: Counter_snoc counter_add_keys)
  have k: "fst ` set (Counter (xs @ [x])) = set (xs @ [x])"
    using snoc by (auto simp: Counter_snoc counter_add_keys simp flip: set_map)
  have m: "map_of (Counter (xs @ [x])) y =
      (if y \<in> set (xs @ [x]) then Some (count_list (xs @ [x]) y) else None)" for y
    using snoc by (auto simp: Counter_snoc counter_add_map_of)
  show ?case using d k m by blast
qed

lemma Counter_mem:
  "(y, n) \<in> set (Counter xs) \<longleftrightarrow> y \<in> set xs \<and> n = count_list xs y"
proof -
  have d: "distinct (map fst (Counter xs))"
    and m: "map_of (Counter xs) y = (if y \<in> set xs then Some (count_list xs y) else None)"
    using Counter_props[of xs] by blast+
  have "(y, n) \<in> set (Counter xs) \<longleftrightarrow> map_of (Counter xs) y = Some n"
    using d by simp
  also have "\<dots> \<longleftrightarrow> y \<in> set xs \<and> n = count_list xs y"
    unfolding m by auto
  finally show ?thesis .
qed

lemma max_first_mem: "max_first best kvs \<in> set (best # kvs)"
  by (induction best kvs rule: max_first.induct) auto

lemma max_first_ge: "\<forall>e\<in>set (best # kvs). snd e \<le> snd (max_first best kvs)"
proof (induction best kvs rule: max_first.induct)
  case (1 best)
  then show ?case by simp
next
  case (2 best kv kvs)
  let ?b = "if snd best < snd kv then kv else best"
  have ih: "\<forall>e\<in>set (?b # kvs). snd e \<le> snd (max_first ?b kvs)"
    using 2 by simp
  then have b: "snd ?b \<le> snd (max_first ?b kvs)"
    by simp
  have "snd best \<le> snd ?b" "snd kv \<le> snd ?b"
    by auto
  then have "snd best \<le> snd (max_first ?b kvs)" "snd kv \<le> snd (max_first ?b kvs)"
    using b by linarith+
  then show ?case
    using ih by simp
qed

lemma most_common1_Counter:
  assumes "ds \<noteq> []"
  shows "\<exists>d rest. most_common1 (Counter ds) = (d, count_list ds d) # rest \<and> d \<in> set ds \<and>
     (\<forall>e\<in>set ds. count_list ds e \<le> count_list ds d)"
proof -
  have "fst ` set (Counter ds) \<noteq> {}"
    using assms Counter_props[of ds] by simp
  then obtain kv rest where c: "Counter ds = kv # rest"
    by (cases "Counter ds") auto
  define m where "m = max_first kv rest"
  have mc: "most_common1 (Counter ds) = [m]"
    by (simp add: most_common1_def c m_def)
  have "m \<in> set (Counter ds)"
    unfolding m_def c by (rule max_first_mem)
  then have m: "fst m \<in> set ds" "snd m = count_list ds (fst m)"
    using Counter_mem[of "fst m" "snd m" ds] by auto
  have "count_list ds e \<le> snd m" if "e \<in> set ds" for e
  proof -
    have "(e, count_list ds e) \<in> set (kv # rest)"
      using that Counter_mem[of e "count_list ds e" ds] c by simp
    then show ?thesis
      unfolding m_def using max_first_ge[of kv rest] by fastforce
  qed
  then show ?thesis
    using mc m by (metis prod.collapse)
qed

lemma code_diffs_eq:
  assumes "sorted vals"
  shows "map (\<lambda>i. \<bar>vals ! (i + 1) - vals ! i\<bar>) [0..<length vals - 1] = consecutive_diffs vals"
proof (rule nth_equalityI)
  show "length (map (\<lambda>i. \<bar>vals ! (i + 1) - vals ! i\<bar>) [0..<length vals - 1]) =
      length (consecutive_diffs vals)"
    by (simp add: consecutive_diffs_def)
next
  fix i assume "i < length (map (\<lambda>i. \<bar>vals ! (i + 1) - vals ! i\<bar>) [0..<length vals - 1])"
  then have i: "Suc i < length vals" by simp
  then have "vals ! i \<le> vals ! Suc i"
    using assms by (simp add: sorted_iff_nth_Suc)
  moreover have "i < length vals - 1" "[0..<length vals - 1] ! i = i"
    using i by simp_all
  ultimately show "map (\<lambda>i. \<bar>vals ! (i + 1) - vals ! i\<bar>) [0..<length vals - 1] ! i =
      consecutive_diffs vals ! i"
    using i by (simp add: consecutive_diffs_def nth_tl)
qed

lemma consecutive_diffs_nonneg:
  assumes "sorted vals" and "d \<in> set (consecutive_diffs vals)"
  shows "0 \<le> d"
proof -
  obtain i where "i < length (consecutive_diffs vals)" "d = consecutive_diffs vals ! i"
    using assms(2) by (auto simp: in_set_conv_nth)
  then have i: "Suc i < length vals" and d: "d = vals ! Suc i - vals ! i"
    by (auto simp: consecutive_diffs_def nth_tl)
  then show ?thesis
    using assms(1) by (simp add: sorted_iff_nth_Suc)
qed

lemma most_common_diff_spec:
  "\<exists>p. most_common_diff (sort (remdups axis)) = Inr p \<and> pitch_spec axis p"
proof -
  let ?vals = "sort (remdups axis)"
  have vals: "?vals = sorted_list_of_set (set axis)"
    by (simp add: sorted_list_of_set_sort_remdups)
  have len: "length ?vals = card (set axis)"
    by (simp add: length_remdups_card_conv)
  have srt: "sorted ?vals" by simp
  have pos: "filter (\<lambda>d. d > 0) (consecutive_diffs ?vals) = positive_diffs axis"
    unfolding positive_diffs_def vals[symmetric]
    using consecutive_diffs_nonneg[OF srt] by (intro filter_cong) (auto simp: less_le)
  have eq: "most_common_diff ?vals =
      (if length ?vals < 2 then Inr None
       else if positive_diffs axis = [] then Inr None
       else (case most_common1 (Counter (positive_diffs axis)) of
               [] \<Rightarrow> Inl IndexError
             | kv # _ \<Rightarrow> Inr (Some (fst kv))))"
    unfolding most_common_diff_def Let_def code_diffs_eq[OF srt] pos ..
  show ?thesis
  proof (cases "card (set axis) < 2 \<or> positive_diffs axis = []")
    case True
    then have "most_common_diff ?vals = Inr None"
      unfolding eq len by auto
    then show ?thesis
      using True by (simp add: pitch_spec_def)
  next
    case False
    then have ne: "positive_diffs axis \<noteq> []" and c: "\<not> card (set axis) < 2" by auto
    obtain d rest where
      mc: "most_common1 (Counter (positive_diffs axis)) =
             (d, count_list (positive_diffs axis) d) # rest"
      and d: "d \<in> set (positive_diffs axis)"
      and mx: "\<forall>e\<in>set (positive_diffs axis).
                 count_list (positive_diffs axis) e \<le> count_list (positive_diffs axis) d"
      using most_common1_Counter[OF ne] by blast
    have "0 < d"
      using d unfolding pos[symmetric] by simp
    then have "pitch_spec axis (Some d)"
      using False d mx by (simp add: pitch_spec_def most_frequent_def)
    moreover have "most_common_diff ?vals = Inr (Some d)"
      unfolding eq len using ne c mc by simp
    ultimately show ?thesis by blast
  qed
qed

text \<open>
  Claim C9. \<^verbatim>\<open>detect_pitch\<close> raises nothing and treats the two axes separately: its
  first component depends on the x values only and is the pitch of the specification for
  them, its second is the same for the y values. The pitch of an axis is absent for
  fewer than two distinct values or no positive difference; otherwise it is a positive
  difference of two consecutive values of the ascending distinct values that occurs at
  least as often among these differences as any other.
\<close>

theorem detect_pitch_spec:
  "\<exists>px py. detect_pitch coords = Inr (px, py) \<and>
     pitch_spec (map (\<lambda>(x, y, _). x) coords) px \<and>
     pitch_spec (map (\<lambda>(x, y, _). y) coords) py"
proof -
  obtain px where px: "most_common_diff (sort (remdups (map (\<lambda>(x, y, _). x) coords))) = Inr px"
    "pitch_spec (map (\<lambda>(x, y, _). x) coords) px"
    using most_common_diff_spec by blast
  obtain py where py: "most_common_diff (sort (remdups (map (\<lambda>(x, y, _). y) coords))) = Inr py"
    "pitch_spec (map (\<lambda>(x, y, _). y) coords) py"
    using most_common_diff_spec by blast
  show ?thesis
    using px py by (simp add: detect_pitch_def)
qed

theorem detect_pitch_spec_witness:
  "detect_pitch [(0, 0, ''a''), (1473 / 1000, 5, ''a''), (2946 / 1000, 5, ''b''), (6, 0, ''a'')]
     = Inr (Some (1473 / 1000), Some 5) \<and>
   pitch_spec (map (\<lambda>(x, y, _). x)
       ([(0, 0, ''a''), (1473 / 1000, 5, ''a''), (2946 / 1000, 5, ''b''), (6, 0, ''a'')]
         :: coord list))
     (Some (1473 / 1000)) \<and>
   pitch_spec (map (\<lambda>(x, y, _). y)
       ([(0, 0, ''a''), (1473 / 1000, 5, ''a''), (2946 / 1000, 5, ''b''), (6, 0, ''a'')]
         :: coord list))
     (Some 5)"
proof -
  let ?cs = "[(0, 0, ''a''), (1473 / 1000, 5, ''a''), (2946 / 1000, 5, ''b''), (6, 0, ''a'')]
     :: coord list"
  have "most_common_diff [0, 1473 / 1000, 2946 / 1000, 6] = Inr (Some (1473 / 1000))"
    by (simp add: most_common_diff_def Counter_def most_common1_def Let_def upt_rec)
  moreover have "most_common_diff [0, 5] = Inr (Some 5)"
    by (simp add: most_common_diff_def Counter_def most_common1_def Let_def upt_rec)
  ultimately have ev: "detect_pitch ?cs = Inr (Some (1473 / 1000), Some 5)"
    by (simp add: detect_pitch_def)
  obtain px py where "detect_pitch ?cs = Inr (px, py)"
    and "pitch_spec (map (\<lambda>(x, y, _). x) ?cs) px"
    and "pitch_spec (map (\<lambda>(x, y, _). y) ?cs) py"
    using detect_pitch_spec [of ?cs] by blast
  then show ?thesis
    using ev by simp
qed

section \<open>Properties of the coordinate extractor\<close>

lemma parse_lines_snoc:
  "parse_lines names (pre @ [l]) = parse_line names (parse_lines names pre) l"
  by (simp add: parse_lines_def)

lemma parse_lines_append:
  "parse_lines names (pre @ post) = foldl (parse_line names) (parse_lines names pre) post"
  by (simp add: parse_lines_def)

lemma re_xy_startswith: "re_xy line = Some v \<Longrightarrow> startswith line ''XY''"
  by (simp add: re_xy_def split: if_splits)

lemma startswith_XY_not_others:
  assumes "startswith line ''XY''"
  shows "\<not> re_sref line" and "re_sname line = None" and "\<not> re_endel line"
proof -
  obtain r where "line = CHR ''X'' # r"
    using assms by (cases line) auto
  then show "\<not> re_sref line" and "re_sname line = None" and "\<not> re_endel line"
    by (simp_all add: re_sref_def re_sname_def re_endel_def)
qed

lemma re_endel_not_others:
  assumes "re_endel line"
  shows "\<not> re_sref line" and "re_sname line = None" and "re_xy line = None"
proof -
  obtain r where "line = CHR ''E'' # r"
    using assms by (cases line) (auto simp: re_endel_def)
  then show "\<not> re_sref line" and "re_sname line = None" and "re_xy line = None"
    by (simp_all add: re_sref_def re_sname_def re_xy_def)
qed

text \<open>A line that is not an SREF line leaves the block flag as it is, unless the flag is
  set and the line is an ENDEL line.\<close>

lemma parse_line_in_sref:
  "fst (parse_line names st l) =
     (re_sref (strip l) \<or> (fst st \<and> \<not> re_endel (strip l)))"
proof (cases "re_endel (strip l)")
  case True
  then show ?thesis
    using re_endel_not_others[OF True]
    by (auto simp: parse_line_def Let_def split: prod.splits)
next
  case False
  then show ?thesis
    by (auto simp: parse_line_def Let_def split: prod.splits option.splits)
qed

lemma in_sref_inside_block: "fst (parse_lines names pre) = inside_block pre"
proof (induction pre rule: rev_induct)
  case Nil
  then show ?case by (simp add: parse_lines_def inside_block_def)
next
  case (snoc l pre)
  have "inside_block (pre @ [l]) \<longleftrightarrow>
      re_sref (strip l) \<or> (inside_block pre \<and> \<not> re_endel (strip l))"
  proof
    assume "inside_block (pre @ [l])"
    then obtain a s b where ab: "pre @ [l] = a @ s # b" and s: "re_sref (strip s)"
      and b: "\<forall>k\<in>set b. \<not> re_endel (strip k)"
      unfolding inside_block_def by blast
    show "re_sref (strip l) \<or> (inside_block pre \<and> \<not> re_endel (strip l))"
    proof (cases b rule: rev_cases)
      case Nil
      then show ?thesis using ab s by simp
    next
      case (snoc b' k)
      then have "pre = a @ s # b'" "l = k"
        using ab by (simp_all flip: append_Cons append_assoc)
      then show ?thesis
        using s b snoc unfolding inside_block_def by auto
    qed
  next
    assume r: "re_sref (strip l) \<or> (inside_block pre \<and> \<not> re_endel (strip l))"
    show "inside_block (pre @ [l])"
    proof (cases "re_sref (strip l)")
      case True
      then have "pre @ [l] = pre @ l # [] \<and> re_sref (strip l) \<and>
          (\<forall>k\<in>set []. \<not> re_endel (strip k))"
        by simp
      then show ?thesis unfolding inside_block_def by blast
    next
      case False
      then obtain a s b where "pre = a @ s # b" "re_sref (strip s)"
        "\<forall>k\<in>set b. \<not> re_endel (strip k)" and nl: "\<not> re_endel (strip l)"
        using r unfolding inside_block_def by blast
      then have "pre @ [l] = a @ s # (b @ [l]) \<and> re_sref (strip s) \<and>
          (\<forall>k\<in>set (b @ [l]). \<not> re_endel (strip k))"
        by simp
      then show ?thesis unfolding inside_block_def by blast
    qed
  qed
  then show ?case
    using snoc by (simp add: parse_lines_snoc parse_line_in_sref)
qed

lemma parse_line_sref: "re_sref (strip s) \<Longrightarrow> fst (snd (parse_line names st s)) = None"
  by (simp add: parse_line_def split: prod.splits)

lemma parse_line_keeps_unnamed:
  "fst (snd st) = None \<Longrightarrow> re_sname (strip k) = None \<Longrightarrow>
     fst (snd (parse_line names st k)) = None"
  by (auto simp: parse_line_def Let_def split: prod.splits option.splits)

lemma foldl_keeps_unnamed:
  "fst (snd st) = None \<Longrightarrow> \<forall>k\<in>set b. re_sname (strip k) = None \<Longrightarrow>
     fst (snd (foldl (parse_line names) st b)) = None"
  by (induction b arbitrary: st) (simp_all add: parse_line_keeps_unnamed)

lemma unnamed_block_cur_sname:
  assumes "unnamed_block pre"
  shows "fst (snd (parse_lines names pre)) = None"
proof -
  obtain a s b where pre: "pre = a @ s # b" and s: "re_sref (strip s)"
    and b: "\<forall>k\<in>set b. re_sname (strip k) = None"
    using assms unfolding unnamed_block_def by blast
  have "parse_lines names pre =
      foldl (parse_line names) (parse_line names (parse_lines names a) s) b"
    unfolding pre by (simp add: parse_lines_def)
  then show ?thesis
    using foldl_keeps_unnamed[OF parse_line_sref[OF s] b] by simp
qed

lemma parse_line_xy_no_emit:
  assumes "re_xy (strip l) \<noteq> None" and "\<not> fst st \<or> fst (snd st) = None"
  shows "parse_line names st l = st"
proof -
  obtain v where v: "re_xy (strip l) = Some v"
    using assms(1) by auto
  then have "startswith (strip l) ''XY''"
    by (rule re_xy_startswith)
  then have "\<not> re_sref (strip l)" "re_sname (strip l) = None"
    by (rule startswith_XY_not_others)+
  then show ?thesis
    using assms(2) v by (auto simp: parse_line_def Let_def split: prod.splits option.splits)
qed

text \<open>
  Claim C8. Let the listing have the lines \<open>pre\<close>, then an XY line \<open>l\<close>, then the lines
  \<open>post\<close>. If \<open>l\<close> stands outside every SREF...ENDEL block, or in a block that has had no
  SNAME line yet, then reading \<open>l\<close> changes nothing in the state of the scan (so no record
  is appended), and the records extracted from the whole listing are those extracted from
  the listing without \<open>l\<close>; this holds for every filter \<open>names\<close>.
\<close>

theorem extraction_scoping:
  assumes "splitlines text = pre @ l # post"
    and "re_xy (strip l) \<noteq> None"
    and "\<not> inside_block pre \<or> unnamed_block pre"
  shows "parse_lines names (pre @ [l]) = parse_lines names pre
     \<and> parse_gds2 text names = snd (snd (parse_lines names (pre @ post)))"
proof -
  have "\<not> fst (parse_lines names pre) \<or> fst (snd (parse_lines names pre)) = None"
    using assms(3) in_sref_inside_block[of names pre] unnamed_block_cur_sname[of pre names]
    by auto
  then have step: "parse_line names (parse_lines names pre) l = parse_lines names pre"
    using assms(2) by (intro parse_line_xy_no_emit)
  then have "parse_lines names (pre @ l # post) = parse_lines names (pre @ post)"
    by (simp add: parse_lines_def)
  then show ?thesis
    using step assms(1) by (simp add: parse_gds2_def parse_lines_snoc)
qed


theorem extraction_scoping_witness:
  "parse_lines [] ([''SREF'', ''SNAME a'', ''XY 1000000:2000000'', ''ENDEL''] @ [''XY 7:7''])
     = parse_lines [] [''SREF'', ''SNAME a'', ''XY 1000000:2000000'', ''ENDEL'']
   \<and> parse_gds2 (''SREF'' @ [LF] @ ''SNAME a'' @ [LF] @ ''XY 1000000:2000000'' @ [LF] @
         ''ENDEL'' @ [LF] @ ''XY 7:7'' @ [LF]) []
       = snd (snd (parse_lines [] ([''SREF'', ''SNAME a'', ''XY 1000000:2000000'', ''ENDEL''] @ [])))
   \<and> parse_gds2 (''SREF'' @ [LF] @ ''SNAME a'' @ [LF] @ ''XY 1000000:2000000'' @ [LF] @
         ''ENDEL'' @ [LF] @ ''XY 7:7'' @ [LF]) [] = [(1, 2, ''a'')]
   \<and> parse_lines [] ([''SREF''] @ [''XY 7:7'']) = parse_lines [] [''SREF'']
   \<and> parse_gds2 (''SREF'' @ [LF] @ ''XY 7:7'' @ [LF] @ ''SNAME a'' @ [LF] @ ''ENDEL'') []
       = snd (snd (parse_lines [] ([''SREF''] @ [''SNAME a'', ''ENDEL''])))
   \<and> parse_gds2 (''SREF'' @ [LF] @ ''XY 7:7'' @ [LF] @ ''SNAME a'' @ [LF] @ ''ENDEL'') [] = []"
proof -
  let ?pre = "[''SREF'', ''SNAME a'', ''XY 1000000:2000000'', ''ENDEL'']"
  let ?text = "''SREF'' @ [LF] @ ''SNAME a'' @ [LF] @ ''XY 1000000:2000000'' @ [LF] @
         ''ENDEL'' @ [LF] @ ''XY 7:7'' @ [LF]"
  let ?text2 = "''SREF'' @ [LF] @ ''XY 7:7'' @ [LF] @ ''SNAME a'' @ [LF] @ ''ENDEL''"
  note ev = splitlines_def is_linebreak_def parse_lines_def parse_line_def
    strip_def isspace_def re_sref_def re_sname_def sname_try_def re_xy_def re_endel_def
    scan_number_def isdigit_def digits_val_def digit_val_def Let_def
  have sl: "splitlines ?text = ?pre @ ''XY 7:7'' # []"
    by (simp add: splitlines_def is_linebreak_def)
  have xy: "re_xy (strip ''XY 7:7'') \<noteq> None"
    by (simp add: ev)
  have "\<not> fst (parse_lines [] ?pre)"
    by (simp add: ev)
  then have out: "\<not> inside_block ?pre \<or> unnamed_block ?pre"
    by (simp add: in_sref_inside_block)
  have r1: "parse_gds2 ?text [] = [(1, 2, ''a'')]"
    by (simp add: parse_gds2_def ev)
  have sl2: "splitlines ?text2 = [''SREF''] @ ''XY 7:7'' # [''SNAME a'', ''ENDEL'']"
    by (simp add: splitlines_def is_linebreak_def)
  have "[''SREF''] = [] @ ''SREF'' # [] \<and> re_sref (strip ''SREF'') \<and>
      (\<forall>k\<in>set []. re_sname (strip k) = None)"
    by (simp add: ev)
  then have "unnamed_block [''SREF'']"
    unfolding unnamed_block_def by blast
  then have un: "\<not> inside_block [''SREF''] \<or> unnamed_block [''SREF'']"
    by simp
  have r2: "parse_gds2 ?text2 [] = []"
    by (simp add: parse_gds2_def ev)
  show ?thesis
    using extraction_scoping [OF sl xy out, of "[]"] extraction_scoping [OF sl2 xy un, of "[]"]
      r1 r2
    by blast
qed

section \<open>Properties of the reparser\<close>

subsection \<open>Stripping and splitting\<close>

lemma dropWhile_keeps: "c \<in> set s \<Longrightarrow> \<not> P c \<Longrightarrow> c \<in> set (dropWhile P s)"
  by (induction s) auto

lemma trim_keeps:
  "c \<in> set s \<Longrightarrow> \<not> P c \<Longrightarrow> c \<in> set (rev (dropWhile P (rev (dropWhile P s))))"
  by (simp add: dropWhile_keeps)

lemma strip_keeps: "c \<in> set s \<Longrightarrow> \<not> isspace c \<Longrightarrow> c \<in> set (strip s)"
  unfolding strip_def by (rule trim_keeps)

lemma strip_chars_keeps: "c \<in> set s \<Longrightarrow> c \<notin> set cs \<Longrightarrow> c \<in> set (strip_chars cs s)"
  unfolding strip_chars_def by (rule trim_keeps)

lemma strip_append_space:
  assumes "list_all isspace t"
  shows "strip (s @ t) = strip s"
proof (cases "list_all isspace s")
  case True
  then have "dropWhile isspace (s @ t) = []" "dropWhile isspace s = []"
    using assms by (simp_all add: dropWhile_eq_Nil_conv list_all_iff)
  then show ?thesis by (simp only: strip_def)
next
  case False
  then obtain x where "x \<in> set s" "\<not> isspace x"
    by (auto simp: list_all_iff)
  then have "dropWhile isspace (s @ t) = dropWhile isspace s @ t"
    by (rule dropWhile_append1)
  moreover have "dropWhile isspace (rev t @ u) = dropWhile isspace u" for u
    using assms by (intro dropWhile_append2) (auto simp: list_all_iff)
  ultimately show ?thesis by (simp add: strip_def)
qed

lemma strip_wrapped:
  assumes "s \<noteq> []" and "\<not> isspace (hd s)" and "\<not> isspace (last s)"
  shows "strip s = s"
proof -
  have "dropWhile isspace s = s"
    using assms(1,2) by (cases s) auto
  moreover have "dropWhile isspace (rev s) = rev s"
    using assms(1,3) by (cases "rev s") (auto simp: last_rev[symmetric] simp del: last_rev)
  ultimately show ?thesis by (simp add: strip_def)
qed

lemma strip_wrapped_append:
  assumes "s \<noteq> []" and "\<not> isspace (hd s)" and "\<not> isspace (last s)" and "list_all isspace t"
  shows "strip (s @ t) = s"
  using strip_append_space[OF assms(4)] strip_wrapped[OF assms(1-3)] by simp

lemma split_on_Nil [simp]: "split_on sep [] = [[]]"
  by (simp add: split_on.simps)

lemma split_on_ne [simp]: "split_on sep s \<noteq> []"
  by (induction sep s rule: split_on.induct) (subst split_on.simps, auto split: list.splits)

lemma split_on_Cons_sep:
  "sep \<noteq> [] \<Longrightarrow> split_on sep (sep @ s) = [] # split_on sep s"
  by (subst split_on.simps) (simp add: startswith_append)

lemma split_on_Cons_other:
  assumes "\<not> startswith (c # s) sep"
  shows "split_on sep (c # s) = (c # hd (split_on sep s)) # tl (split_on sep s)"
proof -
  have "sep \<noteq> []" using assms by auto
  then show ?thesis
    using assms by (subst split_on.simps) (auto split: list.splits)
qed

lemma split_on_char_append:
  "split_on [c] (a @ c # b) = split_on [c] a @ split_on [c] b"
proof (induction a)
  case Nil
  then show ?case using split_on_Cons_sep[of "[c]" b] by simp
next
  case (Cons x a)
  show ?case
  proof (cases "x = c")
    case True
    then show ?thesis
      using split_on_Cons_sep[of "[c]" "a @ c # b"] split_on_Cons_sep[of "[c]" a] Cons by simp
  next
    case False
    then have "\<not> startswith (x # s) [c]" for s by simp
    then show ?thesis
      using Cons split_on_Cons_other[of x _ "[c]"] by (simp add: hd_append)
  qed
qed

lemma split_on_char_none: "c \<notin> set s \<Longrightarrow> split_on [c] s = [s]"
proof (induction s)
  case Nil
  then show ?case by simp
next
  case (Cons x s)
  then have "\<not> startswith (x # s) [c]" by auto
  then show ?case
    using Cons split_on_Cons_other[of x s "[c]"] by simp
qed

lemma split_lines_concat:
  assumes "\<forall>l\<in>set ls. LF \<notin> set l" and "LF \<notin> set z"
  shows "split_on [LF] (concat (map (\<lambda>l. l @ [LF]) ls) @ z) = ls @ [z]"
  using assms
proof (induction ls)
  case Nil
  then show ?case by (simp add: split_on_char_none)
next
  case (Cons l ls)
  then have "split_on [LF] (l @ LF # (concat (map (\<lambda>l. l @ [LF]) ls) @ z)) = [l] @ (ls @ [z])"
    unfolding split_on_char_append by (simp add: split_on_char_none)
  then show ?case by simp
qed

lemma split_on_covers:
  "c \<in> set s \<Longrightarrow> c \<notin> set sep \<Longrightarrow> \<exists>p\<in>set (split_on sep s). c \<in> set p"
proof (induction sep s rule: split_on.induct)
  case (1 sep s)
  show ?case
  proof (cases "sep = [] \<or> s = []")
    case True
    then show ?thesis using 1(3) by (subst split_on.simps) auto
  next
    case False
    show ?thesis
    proof (cases "startswith s sep")
      case True
      have "s = take (length sep) s @ drop (length sep) s" by simp
      moreover have "take (length sep) s = sep"
        using True by (induction s sep rule: startswith.induct) auto
      ultimately have "c \<in> set (drop (length sep) s)"
        using 1(3,4) by (metis Un_iff set_append)
      then have "\<exists>p\<in>set (split_on sep (drop (length sep) s)). c \<in> set p"
        using 1(1)[OF False True] 1(4) by blast
      then show ?thesis
        using False True by (subst split_on.simps) auto
    next
      case ns: False
      obtain x s' where s: "s = x # s'" using False by (cases s) auto
      have eq: "split_on sep s = (x # hd (split_on sep s')) # tl (split_on sep s')"
        using ns unfolding s by (rule split_on_Cons_other)
      show ?thesis
      proof (cases "c = x")
        case True
        then show ?thesis unfolding eq by simp
      next
        case cx: False
        then have "c \<in> set (tl s)" using 1(3) s by simp
        then obtain p where "p \<in> set (split_on sep s')" "c \<in> set p"
          using 1(2)[OF False ns] 1(4) s by auto
        then show ?thesis
          unfolding eq by (cases "split_on sep s'") auto
      qed
    qed
  qed
qed

subsection \<open>Reading one formatted grid row\<close>

lemma format_row_split: "format_row m row = row_body m row @ row_ws m @ [LF]"
  by (simp add: format_row_def row_body_def row_ws_def)

lemma row_ws_space: "list_all isspace (row_ws m)"
  by (simp add: row_ws_def isspace_def)

lemma line_cells_cell_of: "line_cells s = map cell_of (split_on cell_sep s)"
  by (simp add: line_cells_def cell_of_def)

lemma is_symbolD: "is_symbol c \<Longrightarrow> \<exists>x. c = [x] \<and> x \<noteq> dq \<and> x \<noteq> CHR '','' \<and> \<not> isspace x"
  by (auto simp: is_symbol_def isspace_def)

lemma row_cells_join: "row \<noteq> [] \<Longrightarrow> row_cells row = dq # join cell_sep row @ [dq]"
  unfolding row_cells_def
  by (induction row rule: induct_list012) (simp_all add: quoted_def cell_sep_def)

lemma split_cell_sep_dq: "split_on cell_sep [dq] = [[dq]]"
  by (simp add: split_on.simps[of _ "[dq]"] cell_sep_def)

lemma split_cell_sep_sinf_tail: "split_on cell_sep (cell_sep @ [CR, dq]) = [[], [CR, dq]]"
proof -
  have "split_on cell_sep [CR, dq] = [[CR, dq]]"
    using split_cell_sep_dq by (simp add: split_on.simps[of _ "[CR, dq]"] cell_sep_def)
  then show ?thesis
    using split_on_Cons_sep[of cell_sep "[CR, dq]"] by (simp add: cell_sep_def)
qed

lemma split_join_symbols:
  assumes "row \<noteq> []" and "list_all is_symbol row"
  shows "split_on cell_sep (join cell_sep row @ t) =
     butlast row @ (last row @ hd (split_on cell_sep t)) # tl (split_on cell_sep t)"
  using assms
proof (induction row rule: induct_list012)
  case 1
  then show ?case by simp
next
  case (2 f)
  then obtain x where f: "f = [x]" "x \<noteq> dq"
    using is_symbolD[of f] by auto
  then have "\<not> startswith (x # t) cell_sep"
    by (simp add: cell_sep_def)
  then show ?case
    using split_on_Cons_other[of x t cell_sep] f by simp
next
  case (3 f g row)
  then obtain x where f: "f = [x]" "x \<noteq> dq"
    using is_symbolD[of f] by auto
  let ?r = "join cell_sep (g # row) @ t"
  have ns: "\<not> startswith (x # cell_sep @ ?r) cell_sep"
    using f by (simp add: cell_sep_def)
  have "split_on cell_sep (join cell_sep (f # g # row) @ t) =
      split_on cell_sep (x # cell_sep @ ?r)"
    using f by simp
  also have "\<dots> = [x] # split_on cell_sep ?r"
    using split_on_Cons_other[OF ns] split_on_Cons_sep[of cell_sep ?r]
    by (simp add: cell_sep_def)
  also have "split_on cell_sep ?r =
      butlast (g # row) @ (last (g # row) @ hd (split_on cell_sep t)) # tl (split_on cell_sep t)"
    using 3 by simp
  finally show ?case
    using f by simp
qed

lemma split_leading_dq:
  assumes "row \<noteq> []" and "list_all is_symbol row"
  shows "split_on cell_sep (dq # join cell_sep row @ t) =
     (dq # hd (split_on cell_sep (join cell_sep row @ t))) #
       tl (split_on cell_sep (join cell_sep row @ t))"
proof -
  obtain f row' where row: "row = f # row'"
    using assms(1) by (cases row) auto
  then obtain x where f: "f = [x]" "x \<noteq> CHR '',''"
    using assms(2) is_symbolD[of f] by auto
  have "join cell_sep row @ t = x # tl (join cell_sep row @ t)"
    unfolding row using f by (cases row') simp_all
  then have "\<not> startswith (dq # join cell_sep row @ t) cell_sep"
    using f by (metis cell_sep_def startswith.simps(3))
  then show ?thesis
    by (rule split_on_Cons_other)
qed

lemma cell_of_symbol:
  assumes "x \<noteq> dq" and "\<not> isspace x"
  shows "cell_of [x] = [x]" and "cell_of [dq, x] = [x]" and "cell_of [x, dq] = [x]"
    and "cell_of [dq, x, dq] = [x]"
  using assms by (simp_all add: cell_of_def strip_def strip_chars_def isspace_def)

lemma cell_of_sinf_tail: "cell_of [CR, dq] = []"
  by (simp add: cell_of_def strip_def strip_chars_def isspace_def)

lemma map_cell_of_symbols: "list_all is_symbol row \<Longrightarrow> map cell_of row = row"
proof (induction row)
  case Nil
  then show ?case by simp
next
  case (Cons f row)
  then obtain x where "f = [x]" "x \<noteq> dq" "\<not> isspace x"
    using is_symbolD[of f] by auto
  then show ?case
    using Cons by (simp add: cell_of_symbol)
qed

lemma parts_body:
  assumes "row \<noteq> []" and "list_all is_symbol row"
  shows "length (split_on cell_sep (row_body m row)) =
           length row + (if m = ''sinf'' then 1 else 0) \<and>
         line_cells (row_body m row) = row @ (if m = ''sinf'' then [[]] else [])"
proof -
  obtain f row' where row: "row = f # row'"
    using assms(1) by (cases row) auto
  obtain x where f: "f = [x]" "x \<noteq> dq" "\<not> isspace x"
    using assms(2) row is_symbolD[of f] by auto
  have sym': "list_all is_symbol row'"
    using assms(2) row by simp
  have bl: "list_all is_symbol (butlast row')"
    using sym' by (auto simp: list_all_iff dest: in_set_butlastD)
  show ?thesis
  proof (cases "m = ''sinf''")
    case True
    have body: "row_body m row = dq # join cell_sep row @ (cell_sep @ [CR, dq])"
      using True assms(1) by (simp add: row_body_def row_cells_join cell_sep_def)
    have inner: "split_on cell_sep (join cell_sep row @ (cell_sep @ [CR, dq])) =
        row @ [[CR, dq]]"
      using split_join_symbols[OF assms, of "cell_sep @ [CR, dq]"] assms(1)
      by (simp add: split_cell_sep_sinf_tail)
    have parts: "split_on cell_sep (row_body m row) = (dq # f) # row' @ [[CR, dq]]"
      unfolding body split_leading_dq[OF assms] inner using row by simp
    have "length (split_on cell_sep (row_body m row)) = length row + 1"
      unfolding parts using row by simp
    moreover have "line_cells (row_body m row) = row @ [[]]"
      unfolding line_cells_cell_of parts
      using row f map_cell_of_symbols[OF sym']
      by (simp add: cell_of_symbol cell_of_sinf_tail)
    ultimately show ?thesis
      using True by simp
  next
    case False
    have body: "row_body m row = dq # join cell_sep row @ [dq]"
      using False assms(1) by (simp add: row_body_def row_cells_join)
    have inner: "split_on cell_sep (join cell_sep row @ [dq]) = butlast row @ [last row @ [dq]]"
      using split_join_symbols[OF assms, of "[dq]"] by (simp add: split_cell_sep_dq)
    have len: "length (split_on cell_sep (row_body m row)) = length row"
      unfolding body split_leading_dq[OF assms] inner using assms(1) by simp
    have "line_cells (row_body m row) = row"
    proof (cases row')
      case Nil
      then show ?thesis
        unfolding line_cells_cell_of body split_leading_dq[OF assms] inner
        using row f by (simp add: cell_of_symbol)
    next
      case (Cons g row'')
      have "last row' \<in> set row'"
        using Cons by simp
      then have "is_symbol (last row')"
        using sym' by (simp add: list_all_iff)
      then obtain y where l: "last row' = [y]" "y \<noteq> dq" "\<not> isspace y"
        using is_symbolD[of "last row'"] by blast
      have "row' = butlast row' @ [last row']"
        using Cons by simp
      then have "map cell_of (butlast row') @ [cell_of (last row' @ [dq])] = row'"
        using map_cell_of_symbols[OF bl] l by (simp add: cell_of_symbol)
      then show ?thesis
        unfolding line_cells_cell_of body split_leading_dq[OF assms] inner
        using row f Cons by (simp add: cell_of_symbol)
    qed
    then show ?thesis
      using False len by simp
  qed
qed

lemma row_body_wrapped:
  assumes "row \<noteq> []"
  shows "row_body m row \<noteq> []" and "hd (row_body m row) = dq" and "last (row_body m row) = dq"
  using assms by (simp_all add: row_body_def row_cells_join)

lemma strip_row_line:
  assumes "row \<noteq> []" and "list_all isspace ws"
  shows "strip (row_body m row @ ws) = row_body m row"
proof -
  have "\<not> isspace dq" by (simp add: isspace_def)
  then show ?thesis
    using row_body_wrapped[OF assms(1), of m] assms(2) by (intro strip_wrapped_append) simp_all
qed

subsection \<open>The header lines never start the data section\<close>

lemma starts_map_append_space: "list_all isspace t \<Longrightarrow> starts_map (l @ t) = starts_map l"
  by (simp add: starts_map_def strip_append_space)

lemma plain_not_starts_map:
  assumes "c \<in> set line" and "plain_char c"
  shows "\<not> starts_map line"
proof
  assume sm: "starts_map line"
  have "c \<in> set (strip line)"
    using assms by (intro strip_keeps) (simp_all add: plain_char_def)
  moreover have "c \<notin> set cell_sep"
    using assms(2) by (simp add: plain_char_def cell_sep_def)
  ultimately obtain p where p: "p \<in> set (split_on cell_sep (strip line))" "c \<in> set p"
    using split_on_covers by blast
  have "c \<in> set (strip p)"
    using p(2) assms(2) by (intro strip_keeps) (simp_all add: plain_char_def)
  then have c: "c \<in> set (cell_of p)"
    unfolding cell_of_def using assms(2) by (intro strip_chars_keeps) (simp_all add: plain_char_def)
  have "cell_of p \<in> set (line_cells (strip line))"
    using p(1) by (simp add: line_cells_cell_of)
  moreover have "cell_of p \<noteq> []"
    using c by auto
  ultimately have "is_symbol (cell_of p)"
    using sm by (simp add: starts_map_def all_symbols_def list_all_iff)
  then show False
    using c assms(2) by (auto simp: is_symbol_def plain_char_def)
qed

lemma str_nat_digits: "str_nat n \<noteq> [] \<and> set (str_nat n) \<subseteq> set ''0123456789''"
proof (induction n rule: str_nat.induct)
  case (1 n)
  have d: "''0123456789'' ! k \<in> set ''0123456789''" if "k < 10" for k
    using that by (intro nth_mem) simp
  show ?case
  proof (cases "n < 10")
    case True
    then show ?thesis
      using d[of n] by (subst (1 2) str_nat.simps) simp
  next
    case False
    then show ?thesis
      using 1 d[of "n mod 10"] by (subst (1 2) str_nat.simps) simp
  qed
qed

lemma digit_plain: "c \<in> set ''0123456789'' \<Longrightarrow> plain_char c \<and> c \<noteq> LF"
  by (auto simp: plain_char_def isspace_def)

lemma str_nat_plain: "(\<exists>c\<in>set (str_nat n). plain_char c) \<and> LF \<notin> set (str_nat n)"
proof -
  obtain c where "c \<in> set (str_nat n)"
    using str_nat_digits[of n] by (cases "str_nat n") auto
  then show ?thesis
    using str_nat_digits[of n] digit_plain by blast
qed

lemma str_int_plain: "(\<exists>c\<in>set (str_int n). plain_char c) \<and> LF \<notin> set (str_int n)"
  using str_nat_plain by (auto simp: str_int_def)

lemma empty_field_not_start: "\<not> starts_map (quoted [] @ [CR])"
  by code_simp

lemma header_lines_not_start:
  assumes "LF \<notin> set wafer_id" and "LF \<notin> set diam_str"
    and "\<forall>b\<in>set bin_rows. LF \<notin> set b \<and> \<not> starts_map b"
    and "h \<in> set (header_lines grid wafer_id diam_str die_count bin_rows)"
  shows "LF \<notin> set h \<and> \<not> starts_map (h @ [CR])"
proof -
  define P where "P k = (LF \<notin> set k \<and> \<not> starts_map (k @ [CR]))" for k
  have sp: "list_all isspace [CR]"
    by (simp add: isspace_def)
  have plain: "P k" if "LF \<notin> set k" "\<exists>c\<in>set k. plain_char c" for k
    unfolding P_def
    using that plain_not_starts_map[of _ k] starts_map_append_space[OF sp, of k] by blast
  have M: "plain_char (CHR ''M'')" "plain_char (CHR ''R'')" "plain_char (CHR ''0'')"
    "plain_char (CHR ''4'')" "plain_char (CHR ''1'')" "plain_char (CHR ''P'')"
    "plain_char (CHR ''F'')"
    by (simp_all add: plain_char_def isspace_def)
  have empty: "P (quoted [])"
    unfolding P_def using empty_field_not_start by (simp add: quoted_def)
  have bins: "P b" if "b \<in> set bin_rows" for b
    unfolding P_def using that assms(3) starts_map_append_space[OF sp, of b] by blast
  note sn = str_nat_plain str_int_plain
  have first: "P (quoted wafer_id @ '',6,'' @ quoted ''METRIC'' @ '','' @ quoted ''BOTTOM'' @
            '','' @ quoted diam_str @ '','' @ quoted diam_str @ '','' @
            str_nat a @ '','' @ str_nat b @ '','' @ quoted ''0'' @ '','' @ quoted ''0'')" for a b
    using assms(1,2) M(1) sn(1)[of a] sn(1)[of b]
    by (intro plain) (auto simp: quoted_def)
  have cnt: "P (quoted (str_nat n))" for n
    using sn(1)[of n] by (intro plain) (auto simp: quoted_def)
  have dc: "P (quoted (str_int n))" for n
    using sn(2)[of n] by (intro plain) (auto simp: quoted_def)
  have rv: "P (rvd (Suc n))" for n
  proof (intro plain)
    have "set (rvd (Suc n)) \<subseteq> set '','' \<union> (\<Union>x\<in>set (replicate (Suc n) (quoted ''RVD'')). set x)"
      unfolding rvd_def by (rule set_join)
    moreover have "set (replicate (Suc n) (quoted ''RVD'')) = {quoted ''RVD''}"
      by (simp only: set_replicate_conv_if) simp
    ultimately have "set (rvd (Suc n)) \<subseteq> set '','' \<union> set (quoted ''RVD'')"
      by (simp only: UN_insert UN_empty Un_empty_right)
    then show "LF \<notin> set (rvd (Suc n))"
      by (auto simp: quoted_def)
    have "CHR ''R'' \<in> set (rvd (Suc n))"
      by (cases n) (simp_all add: rvd_def quoted_def)
    then show "\<exists>c\<in>set (rvd (Suc n)). plain_char c"
      using M(2) by blast
  qed
  have lit: "P (quoted ''44'' @ '','' @ quoted ''4'')" "P (quoted ''0'')"
    "P (quoted ''1'' @ '','' @ quoted ''4'')" "P (quoted ''POST'')" "P ''0''"
    "P (quoted ''FALSE'')" "P (quoted ''100:6'')"
    using M by (auto intro!: plain simp: quoted_def)
  note facts = first[simplified] cnt dc rv[of 2, simplified] rv[of 10, simplified]
    rv[of 13, simplified] lit[simplified] empty bins
  have "P h"
    using assms(4) unfolding header_lines_def Let_def set_append set_simps
    by (elim UnE insertE emptyE) (auto simp: facts split: if_splits)
  then show ?thesis
    by (simp add: P_def)
qed

subsection \<open>Round trip\<close>

lemma find_header_end_Cons:
  "find_header_end i (l # ls) = (if starts_map l then i else find_header_end (Suc i) ls)"
  by (simp add: starts_map_def Let_def not_less)

lemma find_header_end_skip:
  "\<forall>l\<in>set pre. \<not> starts_map l \<Longrightarrow> starts_map x \<Longrightarrow>
     find_header_end i (pre @ x # rest) = i + length pre"
  by (induction pre arbitrary: i) (simp_all add: find_header_end_Cons del: find_header_end.simps)

lemma symbols_nonempty: "list_all is_symbol row \<Longrightarrow> filter (\<lambda>c. c \<noteq> []) row = row"
  by (induction row) (auto simp: is_symbol_def)

lemma row_line_facts:
  assumes "row \<noteq> []" and "list_all is_symbol row" and "list_all isspace ws"
  shows "strip (row_body m row @ ws) = row_body m row"
    and "row_body m row \<noteq> []"
    and "all_symbols (line_cells (row_body m row))"
    and "filter (\<lambda>c. c \<noteq> []) (line_cells (row_body m row)) = row"
    and "line_cells (row_body m row) \<noteq> []"
proof -
  show "strip (row_body m row @ ws) = row_body m row"
    using assms(1,3) by (rule strip_row_line)
  show "row_body m row \<noteq> []"
    using assms(1) by (rule row_body_wrapped)
  have lc: "line_cells (row_body m row) = row @ (if m = ''sinf'' then [[]] else [])"
    using parts_body[OF assms(1,2)] by blast
  show "all_symbols (line_cells (row_body m row))"
    unfolding lc all_symbols_def using assms(2) by (simp add: symbols_nonempty)
  show "filter (\<lambda>c. c \<noteq> []) (line_cells (row_body m row)) = row"
    unfolding lc using assms(2) by (simp add: symbols_nonempty)
  show "line_cells (row_body m row) \<noteq> []"
    unfolding lc using assms(1) by simp
qed

lemma row_line_starts_map:
  assumes "10 \<le> length row" and "list_all is_symbol row" and "list_all isspace ws"
  shows "starts_map (row_body m row @ ws)"
proof -
  have ne: "row \<noteq> []" using assms(1) by auto
  have "10 \<le> length (split_on cell_sep (row_body m row))"
    using parts_body[OF ne assms(2), of m] assms(1) by simp
  then show ?thesis
    unfolding starts_map_def using row_line_facts[OF ne assms(2,3), of m] by simp
qed

lemma collect_rows_line:
  assumes "row \<noteq> []" and "list_all is_symbol row" and "list_all isspace ws"
  shows "collect_rows ((row_body m row @ ws) # ls) = row # collect_rows ls"
  using row_line_facts[OF assms, of m] by (simp add: Let_def)

lemma collect_rows_lines:
  assumes "\<forall>row\<in>set rows. row \<noteq> [] \<and> list_all is_symbol row" and "list_all isspace ws"
  shows "collect_rows (map (\<lambda>row. row_body m row @ ws) rows @ ls) = rows @ collect_rows ls"
  using assms(1)
proof (induction rows)
  case Nil
  then show ?case by simp
next
  case (Cons row rows)
  then show ?case
    using collect_rows_line[of row ws m] assms(2) by (simp del: collect_rows.simps)
qed

lemma row_line_no_LF:
  assumes "list_all is_symbol row"
  shows "LF \<notin> set (row_body m row @ row_ws m)"
proof -
  have "CR \<notin> set c \<and> LF \<notin> set c" if "c \<in> set row" for c
  proof -
    have "is_symbol c"
      using assms that by (simp add: list_all_iff)
    then obtain x where "c = [x]" "\<not> isspace x"
      using is_symbolD by blast
    moreover have "isspace CR" "isspace LF"
      by (simp_all add: isspace_def)
    ultimately show ?thesis by auto
  qed
  then have "LF \<notin> set (row_cells row)"
    using row_cells_no_CR_LF[of row] by blast
  moreover have "LF \<notin> set [CHR '','', dq, CR, dq]" "LF \<notin> set [CR]"
    by simp_all
  ultimately show ?thesis
    unfolding row_body_def row_ws_def by (simp only: set_append Un_iff split: if_splits) simp
qed

lemma format_row_fun: "format_row m = (\<lambda>row. row_body m row @ row_ws m @ [LF])"
  by (rule ext) (rule format_row_split)

text \<open>
  Claim C1, as the code has it. Take a grid that is not empty, whose first row has at
  least ten cells and whose rows are all non-empty lists of the symbols \<^verbatim>\<open>'.'\<close>, \<^verbatim>\<open>'?'\<close>,
  \<^verbatim>\<open>'*'\<close>; a wafer id and a diameter text without a line feed; and bin rows without a line
  feed, none of which passes the reparser's own test for the start of the data section.
  Then for every line mode (and every die count) the reparser reads the formatted output
  back as exactly that grid: the same rows, in order, with the same cells.
\<close>

theorem reparse_format_roundtrip:
  assumes "grid \<noteq> []" and "10 \<le> length (hd grid)"
    and "\<forall>row\<in>set grid. row \<noteq> [] \<and> list_all is_symbol row"
    and "LF \<notin> set wafer_id" and "LF \<notin> set diam_str"
    and "\<forall>b\<in>set bin_rows. LF \<notin> set b \<and> \<not> starts_map b"
  shows "reparse (format_output grid wafer_id diam_str die_count line_mode bin_rows) = Some grid"
proof -
  let ?H = "header_lines grid wafer_id diam_str die_count bin_rows"
  let ?m = line_mode
  define HL where "HL = map (\<lambda>h. h @ [CR]) ?H"
  obtain g0 rl where grid: "grid = g0 @ [rl]"
    using assms(1) by (cases grid rule: rev_cases) auto
  have rl: "rl \<noteq> []" "list_all is_symbol rl"
    and g0: "\<forall>row\<in>set g0. row \<noteq> [] \<and> list_all is_symbol row"
    using assms(3) grid by auto
  define RL where "RL = map (\<lambda>row. row_body ?m row @ row_ws ?m) g0"
  have H: "LF \<notin> set h \<and> \<not> starts_map (h @ [CR])" if "h \<in> set ?H" for h
    using header_lines_not_start[OF assms(4-6) that] .
  have Hne: "?H \<noteq> []" and hdH: "hd (hd ?H) = dq" "hd ?H \<noteq> []"
    by (simp_all add: header_lines_def Let_def quoted_def)
  txt \<open>The output, cut into lines.\<close>
  have out: "format_output grid wafer_id diam_str die_count ?m bin_rows =
      (concat (map (\<lambda>l. l @ [LF]) (HL @ RL)) @ row_body ?m rl) @ (row_ws ?m @ [LF])"
    by (simp add: format_output_def grid HL_def RL_def format_row_fun comp_def)
  let ?s = "concat (map (\<lambda>l. l @ [LF]) (HL @ RL)) @ row_body ?m rl"
  have "HL \<noteq> []" "hd HL = hd ?H @ [CR]"
    using Hne by (simp_all add: HL_def hd_map)
  then have "hd ?s = dq"
    using hdH by (cases HL) (simp_all add: hd_append)
  moreover have "last ?s = dq" "?s \<noteq> []"
    using row_body_wrapped[OF rl(1), of ?m] by simp_all
  moreover have "\<not> isspace dq" by (simp add: isspace_def)
  moreover have "list_all isspace (row_ws ?m @ [LF])"
    using row_ws_space[of ?m] by (simp add: isspace_def)
  ultimately have strip_out:
    "strip (format_output grid wafer_id diam_str die_count ?m bin_rows) = ?s"
    unfolding out by (intro strip_wrapped_append) simp_all
  have noLF: "\<forall>l\<in>set (HL @ RL). LF \<notin> set l"
    using H g0 row_line_no_LF by (auto simp: HL_def RL_def)
  have "LF \<notin> set (row_body ?m rl)"
    using row_line_no_LF[OF rl(2), of ?m] by simp
  then have lines: "split_on [LF] ?s = HL @ RL @ [row_body ?m rl]"
    using split_lines_concat[OF noLF] by simp
  txt \<open>The first grid row is the first line that passes the test.\<close>
  define rest where "rest = tl (RL @ [row_body ?m rl])"
  have rows_eq: "RL @ [row_body ?m rl] =
      (row_body ?m (hd grid) @ (if g0 = [] then [] else row_ws ?m)) # rest"
    unfolding rest_def RL_def grid by (cases g0) simp_all
  have "list_all isspace (if g0 = [] then [] else row_ws ?m)"
    using row_ws_space[of ?m] by simp
  then have first: "starts_map (row_body ?m (hd grid) @ (if g0 = [] then [] else row_ws ?m))"
    using assms(1,2,3) by (intro row_line_starts_map) simp_all
  have "\<forall>l\<in>set HL. \<not> starts_map l"
    using H by (auto simp: HL_def)
  then have "find_header_end 0 (HL @ RL @ [row_body ?m rl]) = length HL"
    unfolding rows_eq using find_header_end_skip[OF _ first, of HL 0 rest] by simp
  moreover have "0 < length HL"
    using \<open>HL \<noteq> []\<close> by simp
  txt \<open>Every line after the header gives back its row.\<close>
  moreover have "collect_rows (RL @ [row_body ?m rl]) = grid"
  proof -
    have "collect_rows [row_body ?m rl @ []] = [rl]"
      using collect_rows_line[OF rl, of "[]" ?m "[]"] by simp
    then show ?thesis
      unfolding RL_def grid using collect_rows_lines[OF g0 row_ws_space, of ?m ?m] by simp
  qed
  ultimately show ?thesis
    using assms(1) unfolding reparse_def strip_out lines by (simp add: Let_def)
qed

theorem reparse_format_roundtrip_witness:
  "reparse (format_output wide_grid ''W1'' ''200.0'' 8 ''sinf'' [''BIN,1,PASS'']) = Some wide_grid
   \<and> reparse (format_output wide_grid ''W1'' ''200.0'' 8 ''crlf'' [''BIN,1,PASS'']) = Some wide_grid
   \<and> reparse (format_output wide_grid ''W1'' ''200.0'' 8 ''lf'' [''BIN,1,PASS'']) = Some wide_grid"
proof -
  have g: "wide_grid \<noteq> []" "10 \<le> length (hd wide_grid)"
    "\<forall>row\<in>set wide_grid. row \<noteq> [] \<and> list_all is_symbol row"
    by (simp_all add: wide_grid_def is_symbol_def)
  have t: "LF \<notin> set ''W1''" "LF \<notin> set ''200.0''"
    by simp_all
  have "\<not> starts_map ''BIN,1,PASS''"
    by code_simp
  then have b: "\<forall>b\<in>set [''BIN,1,PASS'']. LF \<notin> set b \<and> \<not> starts_map b"
    by simp
  show ?thesis
    using reparse_format_roundtrip [OF g t b, of 8 "''sinf''"]
      reparse_format_roundtrip [OF g t b, of 8 "''crlf''"]
      reparse_format_roundtrip [OF g t b, of 8 "''lf''"]
    by blast
qed

text \<open>
  Claim C1 as the specification words it (for every grid) fails: the 3 by 3 grid that
  \<^verbatim>\<open>build_grid\<close> returns for the specification's own scenario is formatted into a text in
  which no line has ten parts, and the reparser returns nothing for it.
\<close>

theorem reparse_format_counterexample:
  "build_grid [(0, 0, ''die'')] 3 1 1 True = Inr scenario_grid
   \<and> reparse (format_output scenario_grid ''W'' ''3.0'' 1 ''lf'' []) = None"
proof -
  have "reparse (format_output scenario_grid ''W'' ''3.0'' 1 ''lf'' []) = None"
    by code_simp
  then show ?thesis
    using scenario_build_grid by simp
qed

subsection \<open>A data row on the first line\<close>

text \<open>
  Claim C5 on the code, at a text that is one line of ten quoted empty cells. That line
  passes the test of the search loop, so by the claim the data section starts there, and
  the row loop run from it yields one row of ten cells. But the search stores its index 0
  in \<^verbatim>\<open>header_end\<close>, which is also the value for "nothing found", and the reparser returns
  nothing. With any line before it the same row is recognised.
\<close>

theorem first_line_row_not_recognised:
  "starts_map (row_cells ten_dots)
   \<and> collect_rows [row_cells ten_dots] = [ten_dots]
   \<and> reparse (row_cells ten_dots) = None
   \<and> reparse (''x'' @ [LF] @ row_cells ten_dots) = Some [ten_dots]"
  by code_simp

text \<open>
  The same for every text: when the first line of the trimmed text passes the test of the
  search loop, the reparser returns nothing, whatever follows.
\<close>

theorem reparse_first_line:
  assumes "split_on [LF] (strip raw_text) = l # ls" and "starts_map l"
  shows "reparse raw_text = None"
  using assms by (simp add: reparse_def find_header_end_Cons del: find_header_end.simps)

theorem reparse_first_line_witness:
  "split_on [LF] (strip (row_cells ten_dots @ [LF] @ row_cells ten_dots)) =
     row_cells ten_dots # [row_cells ten_dots]
   \<and> starts_map (row_cells ten_dots)
   \<and> reparse (row_cells ten_dots @ [LF] @ row_cells ten_dots) = None"
proof -
  have a: "split_on [LF] (strip (row_cells ten_dots @ [LF] @ row_cells ten_dots)) =
     row_cells ten_dots # [row_cells ten_dots]"
    by code_simp
  have b: "starts_map (row_cells ten_dots)"
    by code_simp
  show ?thesis
    using reparse_first_line [OF a b] a b by simp
qed

end
